theory Spec2Isabelle
  imports Main "HOL-Library.Sublist"
begin

section \<open>The nested list manager of \<open>nestedListManager.py\<close>\<close>

text \<open>
  The manager keeps a flat collection of items; the hierarchy is given by the
  \<open>parent_id\<close> back-reference of each item and the position among siblings by
  \<open>order\<close>. Python integers are unbounded; the integer fields are 32-bit properties,
  and an assignment outside their range raises.

  The fields of \<open>NestedListItem\<close> carry the suffix \<open>_of\<close>, because \<open>id\<close> is a
  constant of HOL and \<open>name\<close> and \<open>parent_id\<close> are parameter names of the methods.
\<close>

record item =
  id_of :: int
  name_of :: string
  parent_id_of :: int
  order_of :: int

text \<open>
  Modelled from the spec: the declaration of \<open>items\<close> is commented out in
  \<open>NestedListManager\<close> (\<open>CollectionProperty(type=NestedListItem)\<close>). It is the
  collection of items that the store owns and every method reads, modelled as the list of
  its elements in storage order. The other two fields are declared in the class.
\<close>

record store =
  items :: "item list"
  active_index :: int
  next_id :: int

text \<open>
  A Python reference to an element of the collection is modelled as the position of the
  element in \<open>items\<close>: two elements are the same object iff they have the same position.
\<close>

type_synonym ref = nat

text \<open>The property defaults: \<open>IntProperty()\<close> is 0, \<open>StringProperty()\<close> is empty,
  \<open>parent_id\<close> is declared with \<open>default=-1\<close>, \<open>next_id\<close> with \<open>default=0\<close>.\<close>

definition default_item :: item where
  "default_item = \<lparr>id_of = 0, name_of = [], parent_id_of = -1, order_of = 0\<rparr>"

definition empty_store :: store where
  "empty_store = \<lparr>items = [], active_index = 0, next_id = 0\<rparr>"

text \<open>
  \<open>id\<close>, \<open>parent_id\<close>, \<open>order\<close> and \<open>next_id\<close> are \<open>IntProperty\<close> fields: reading
  one gives an integer of the 32-bit range, and assigning a value outside that range
  raises \<open>ValueError\<close> and assigns nothing. The check is modelled where an argument or a
  computed value is assigned; a value read from another property is in the range already.
  A \<open>StringProperty\<close> keeps a string up to its first NUL character.
\<close>

datatype error = ValueError

definition in_range :: "int \<Rightarrow> bool" where
  "in_range v = (- 2147483648 \<le> v \<and> v \<le> 2147483647)"

definition c_string :: "string \<Rightarrow> string" where
  "c_string name = takeWhile (\<lambda>c. c \<noteq> CHR 0x00) name"

text \<open>Assignment to a field of the element behind a reference.\<close>

definition update_item :: "ref \<Rightarrow> (item \<Rightarrow> item) \<Rightarrow> store \<Rightarrow> store" where
  "update_item r f s = s\<lparr>items := (items s)[r := f (items s ! r)]\<rparr>"

text \<open>The position of the first element that satisfies a test, scanning from the front.\<close>

fun first_index :: "('a \<Rightarrow> bool) \<Rightarrow> 'a list \<Rightarrow> nat option" where
  "first_index P [] = None"
| "first_index P (x # xs) = (if P x then Some 0 else map_option Suc (first_index P xs))"

text \<open>Python's \<open>max(iterable, default=d)\<close>.\<close>

fun max_default :: "int list \<Rightarrow> int \<Rightarrow> int" where
  "max_default [] d = d"
| "max_default (x # xs) d = fold max xs x"

subsection \<open>Queries\<close>

definition get_next_order :: "store \<Rightarrow> int \<Rightarrow> int" where
  "get_next_order s parent_id =
     max_default (map order_of (filter (\<lambda>item. parent_id_of item = parent_id) (items s))) (-1) + 1"

definition get_item_by_id :: "store \<Rightarrow> int \<Rightarrow> ref option" where
  "get_item_by_id s item_id = first_index (\<lambda>item. id_of item = item_id) (items s)"

definition get_collection_index_from_id :: "store \<Rightarrow> int \<Rightarrow> int" where
  "get_collection_index_from_id s item_id =
     (case first_index (\<lambda>item. id_of item = item_id) (items s) of
        Some index \<Rightarrow> int index
      | None \<Rightarrow> -1)"

subsection \<open>\<open>add_item\<close>\<close>

text \<open>
  \<open>self.items.add()\<close> appends an element with the default field values and returns it;
  the element is in the collection from then on, so \<open>get_next_order\<close> sees it, with
  the parent it has just been given and the default order 0.

  The store is mutated in place, so a call that raises leaves the store as it is at the
  assignment that raised: the result is the exception or the returned id, together with
  the store after the call.
\<close>

definition add_item :: "store \<Rightarrow> string \<Rightarrow> int \<Rightarrow> (error + int) \<times> store" where
  "add_item s name parent_id =
     (let new_item = length (items s);
          s1 = s\<lparr>items := items s @ [default_item]\<rparr>;
          s2 = update_item new_item (\<lambda>i. i\<lparr>id_of := next_id s1\<rparr>) s1;
          s3 = update_item new_item (\<lambda>i. i\<lparr>name_of := c_string name\<rparr>) s2
      in if \<not> in_range parent_id then (Inl ValueError, s3)
         else
           (let s4 = update_item new_item (\<lambda>i. i\<lparr>parent_id_of := parent_id\<rparr>) s3
            in if \<not> in_range (get_next_order s4 parent_id) then (Inl ValueError, s4)
               else
                 (let s5 = update_item new_item
                             (\<lambda>i. i\<lparr>order_of := get_next_order s4 parent_id\<rparr>) s4
                  in if \<not> in_range (next_id s5 + 1) then (Inl ValueError, s5)
                     else
                       (let s6 = s5\<lparr>next_id := next_id s5 + 1\<rparr>
                        in (Inr (id_of (items s6 ! new_item)), s6)))))"

subsection \<open>\<open>move_item\<close>\<close>

text \<open>
  The \<open>while current:\<close> loop of \<open>move_item\<close>. It may run forever, so it is a partial
  function: \<open>None\<close> is "does not return", \<open>Some True\<close> is "reached \<open>item_id\<close>" (the
  \<open>return False\<close> inside the loop) and \<open>Some False\<close> is "the loop ended".
  \<open>move_item\<close> gives \<open>None\<close> when the walk does not return, and otherwise the
  returned boolean or the exception, with the store after the call.
\<close>

partial_function (option) ancestor_walk :: "store \<Rightarrow> int \<Rightarrow> ref option \<Rightarrow> bool option" where
  "ancestor_walk s item_id current =
     (case current of
        None \<Rightarrow> Some False
      | Some c \<Rightarrow>
          if id_of (items s ! c) = item_id then Some True
          else ancestor_walk s item_id (get_item_by_id s (parent_id_of (items s ! c))))"

text \<open>One step of the upward walk: from an id to the parent of the item found for it.\<close>

definition parent_edge :: "store \<Rightarrow> (int \<times> int) set" where
  "parent_edge s =
     {(a, b). \<exists>c. get_item_by_id s a = Some c \<and> parent_id_of (items s ! c) = b}"

declare ancestor_walk.simps [code]

definition move_item :: "store \<Rightarrow> int \<Rightarrow> int \<Rightarrow> ((error + bool) \<times> store) option" where
  "move_item s item_id new_parent_id =
     (case get_item_by_id s item_id of
        None \<Rightarrow> Some (Inr False, s)
      | Some item \<Rightarrow>
          if new_parent_id = -1 \<or> get_item_by_id s new_parent_id \<noteq> None then
            (case ancestor_walk s item_id (get_item_by_id s new_parent_id) of
               None \<Rightarrow> None
             | Some True \<Rightarrow> Some (Inr False, s)
             | Some False \<Rightarrow>
                 if \<not> in_range new_parent_id then Some (Inl ValueError, s)
                 else
                   (let s1 = update_item item (\<lambda>i. i\<lparr>parent_id_of := new_parent_id\<rparr>) s
                    in if \<not> in_range (get_next_order s1 new_parent_id)
                       then Some (Inl ValueError, s1)
                       else
                         (let s2 = update_item item
                                     (\<lambda>i. i\<lparr>order_of := get_next_order s1 new_parent_id\<rparr>) s1
                          in Some (Inr True, s2))))
          else Some (Inr False, s))"

subsection \<open>\<open>reorder_item\<close>\<close>

text \<open>
  \<open>sorted(..., key=lambda i: i.order)\<close> is a stable sort, as \<open>sort_key\<close> is. The list
  holds references, so it is a list of positions.
\<close>

definition sorted_children :: "store \<Rightarrow> int \<Rightarrow> ref list" where
  "sorted_children s parent_id =
     sort_key (\<lambda>i. order_of (items s ! i))
       (filter (\<lambda>i. parent_id_of (items s ! i) = parent_id) [0..<length (items s)])"

text \<open>
  \<open>siblings.index(item)\<close> raises \<open>ValueError\<close> when the item is not in the list; that
  is the result \<open>None\<close> of \<open>reorder_item\<close>. The \<open>direction\<close> is a Python string.
\<close>

definition reorder_item :: "store \<Rightarrow> int \<Rightarrow> string \<Rightarrow> (bool \<times> store) option" where
  "reorder_item s item_id direction =
     (case get_item_by_id s item_id of
        None \<Rightarrow> Some (False, s)
      | Some item \<Rightarrow>
          (let siblings = sorted_children s (parent_id_of (items s ! item)) in
           case first_index (\<lambda>i. i = item) siblings of
             None \<Rightarrow> None
           | Some idx \<Rightarrow>
               if direction = ''UP'' \<and> idx > 0 then
                 (let swap_item = siblings ! (idx - 1);
                      a = order_of (items s ! swap_item);
                      b = order_of (items s ! item);
                      s1 = update_item item (\<lambda>i. i\<lparr>order_of := a\<rparr>) s;
                      s2 = update_item swap_item (\<lambda>i. i\<lparr>order_of := b\<rparr>) s1
                  in Some (True, s2))
               else if direction = ''DOWN'' \<and> int idx < int (length siblings) - 1 then
                 (let swap_item = siblings ! (idx + 1);
                      a = order_of (items s ! swap_item);
                      b = order_of (items s ! item);
                      s1 = update_item item (\<lambda>i. i\<lparr>order_of := a\<rparr>) s;
                      s2 = update_item swap_item (\<lambda>i. i\<lparr>order_of := b\<rparr>) s1
                  in Some (True, s2))
               else Some (False, s)))"

text \<open>
  The order of a sorted sibling group, with the stability of the sort written out: by
  \<open>order\<close>, and by storage position among equal orders.
\<close>

definition stable_less :: "store \<Rightarrow> ref \<Rightarrow> ref \<Rightarrow> bool" where
  "stable_less s a b =
     (order_of (items s ! a) < order_of (items s ! b)
      \<or> (order_of (items s ! a) = order_of (items s ! b) \<and> a < b))"

subsection \<open>\<open>flatten_hierarchy\<close>\<close>

text \<open>
  \<open>collect_items\<close> calls itself for every child. The first argument bounds the depth of
  the recursion: \<open>None\<close> is "the recursion is deeper than the bound". The \<open>for\<close> loop
  is the \<open>fold\<close> over the children, \<open>collected\<close> its accumulator.
\<close>

fun collect_items :: "nat \<Rightarrow> store \<Rightarrow> int \<Rightarrow> int \<Rightarrow> (ref \<times> int) list option" where
  "collect_items 0 s parent_id level = None"
| "collect_items (Suc depth) s parent_id level =
     fold (\<lambda>item collected.
             case collected of
               None \<Rightarrow> None
             | Some col \<Rightarrow>
                 (case collect_items depth s (id_of (items s ! item)) (level + 1) of
                    None \<Rightarrow> None
                  | Some sub \<Rightarrow> Some ((col @ [(item, level)]) @ sub)))
          (sorted_children s parent_id) (Some [])"

definition flatten_hierarchy :: "nat \<Rightarrow> store \<Rightarrow> (ref \<times> int) list option" where
  "flatten_hierarchy depth s = collect_items depth s (-1) 0"


subsection \<open>Removal\<close>

text \<open>
  \<open>manager.items.remove(collection_index)\<close> of the remove operator: the element at
  that position leaves the collection, the later ones move up. The operator only passes
  a position it has just looked up; a position out of range changes nothing here.
\<close>

definition items_remove :: "store \<Rightarrow> nat \<Rightarrow> store" where
  "items_remove s index =
     (if index < length (items s)
      then s\<lparr>items := take index (items s) @ drop (Suc index) (items s)\<rparr>
      else s)"

subsection \<open>Sequences of calls\<close>

text \<open>
  A call of one of the mutating operations, with its arguments, and what the caller sees
  of it: the returned value or the exception. \<open>apply_op\<close> gives that and the store
  after the call, or \<open>None\<close> when the call does not return. A caller that catches
  the exception goes on with the store as the call left it.
\<close>

datatype op = Add string int | Move int int | Reorder int string | Remove nat

datatype outcome = Returned_id int | Returned_bool bool | Returned_none | Raised error

fun apply_op :: "store \<Rightarrow> op \<Rightarrow> (outcome \<times> store) option" where
  "apply_op s (Add name parent_id) =
     (case add_item s name parent_id of
        (Inl e, s') \<Rightarrow> Some (Raised e, s')
      | (Inr new_id, s') \<Rightarrow> Some (Returned_id new_id, s'))"
| "apply_op s (Move item_id new_parent_id) =
     (case move_item s item_id new_parent_id of
        None \<Rightarrow> None
      | Some (Inl e, s') \<Rightarrow> Some (Raised e, s')
      | Some (Inr ok, s') \<Rightarrow> Some (Returned_bool ok, s'))"
| "apply_op s (Reorder item_id direction) =
     (case reorder_item s item_id direction of
        None \<Rightarrow> Some (Raised ValueError, s)
      | Some (ok, s') \<Rightarrow> Some (Returned_bool ok, s'))"
| "apply_op s (Remove index) = Some (Returned_none, items_remove s index)"

fun run :: "store \<Rightarrow> op list \<Rightarrow> (outcome list \<times> store) option" where
  "run s [] = Some ([], s)"
| "run s (c # cs) =
     (case apply_op s c of
        None \<Rightarrow> None
      | Some (out, s') \<Rightarrow>
          (case run s' cs of
             None \<Rightarrow> None
           | Some (outs, t) \<Rightarrow> Some (out # outs, t)))"


text \<open>
  Conditions on the \<open>add_item\<close> calls of a sequence: the call returns (it does not
  raise), and the parent passed is below \<open>next_id\<close>, so it is not the id of an item
  yet to be created. \<open>every_call ok s cs\<close> says that \<open>ok\<close> holds of every call of
  \<open>cs\<close>, run from \<open>s\<close>, in the store it is made on.
\<close>

definition add_returns :: "store \<Rightarrow> op \<Rightarrow> bool" where
  "add_returns s c =
     (case c of
        Add name parent_id \<Rightarrow>
          (case fst (add_item s name parent_id) of Inl e \<Rightarrow> False | Inr new_id \<Rightarrow> True)
      | _ \<Rightarrow> True)"

definition add_past :: "store \<Rightarrow> op \<Rightarrow> bool" where
  "add_past s c = (case c of Add name parent_id \<Rightarrow> parent_id < next_id s | _ \<Rightarrow> True)"

fun every_call :: "(store \<Rightarrow> op \<Rightarrow> bool) \<Rightarrow> store \<Rightarrow> op list \<Rightarrow> bool" where
  "every_call ok s [] = True"
| "every_call ok s (c # cs) =
     (ok s c \<and>
      (case apply_op s c of None \<Rightarrow> True | Some (out, s') \<Rightarrow> every_call ok s' cs))"

subsection \<open>The parent graph\<close>

text \<open>An edge from the id of every item to its \<open>parent_id\<close>.\<close>

definition parent_rel :: "store \<Rightarrow> (int \<times> int) set" where
  "parent_rel s = (\<lambda>i. (id_of i, parent_id_of i)) ` set (items s)"

text \<open>
  An item with a dangling parent reference: its \<open>parent_id\<close> is not the sentinel and
  no other item has that id.
\<close>

definition dangling :: "store \<Rightarrow> ref \<Rightarrow> bool" where
  "dangling s r =
     (r < length (items s) \<and> parent_id_of (items s ! r) \<noteq> -1 \<and>
      (\<forall>j\<in>set [0..<length (items s)].
          id_of (items s ! j) = parent_id_of (items s ! r) \<longrightarrow> j = r))"

text \<open>
  The invariants of the stores that the calls build from the empty store: \<open>ids_inv\<close>
  when every \<open>add_item\<close> returns, \<open>store_inv\<close> when moreover every \<open>add_item\<close> is
  given a parent below \<open>next_id\<close>.
\<close>

definition ids_inv :: "store \<Rightarrow> bool" where
  "ids_inv s =
     (0 \<le> next_id s \<and>
      (\<forall>i\<in>set (items s). 0 \<le> id_of i \<and> id_of i < next_id s) \<and>
      distinct (map id_of (items s)))"

definition store_inv :: "store \<Rightarrow> bool" where
  "store_inv s =
     (ids_inv s \<and>
      (\<forall>i\<in>set (items s). parent_id_of i < next_id s) \<and>
      acyclic (parent_rel s))"

subsection \<open>The traversal as the specification words it\<close>

text \<open>
  The forest below a parent: one tree for each child, the children in the order of
  \<open>sorted_children\<close>, and its depth-first, pre-order listing with the depth of each
  node. The bound on the depth is that of \<open>collect_items\<close>.
\<close>

datatype tree = Node ref "tree list"

fun spec_forest :: "nat \<Rightarrow> store \<Rightarrow> int \<Rightarrow> tree list option" where
  "spec_forest 0 s parent_id = None"
| "spec_forest (Suc depth) s parent_id =
     those (map (\<lambda>c. map_option (Node c) (spec_forest depth s (id_of (items s ! c))))
              (sorted_children s parent_id))"

fun spec_preorder :: "int \<Rightarrow> tree \<Rightarrow> (ref \<times> int) list" where
  "spec_preorder level (Node c ts) = (c, level) # concat (map (spec_preorder (level + 1)) ts)"

subsection \<open>Stores used as examples\<close>

definition mk_item :: "int \<Rightarrow> string \<Rightarrow> int \<Rightarrow> int \<Rightarrow> item" where
  "mk_item i n p ord = \<lparr>id_of = i, name_of = n, parent_id_of = p, order_of = ord\<rparr>"

definition mk_store :: "item list \<Rightarrow> int \<Rightarrow> store" where
  "mk_store xs n = \<lparr>items = xs, active_index = 0, next_id = n\<rparr>"

text \<open>Root items A (order 0) and B (order 1), and C (order 0) below A.\<close>

definition abc_store :: store where
  "abc_store = mk_store [mk_item 0 ''A'' (-1) 0, mk_item 1 ''B'' (-1) 1, mk_item 2 ''C'' 0 0] 3"

text \<open>The chain: B below A, C below B.\<close>

definition chain_store :: store where
  "chain_store = mk_store [mk_item 0 ''A'' (-1) 0, mk_item 1 ''B'' 0 0, mk_item 2 ''C'' 1 0] 3"

text \<open>A parent with three children of orders 0, 2 and 5.\<close>

definition gaps_store :: store where
  "gaps_store =
     mk_store [mk_item 0 ''P'' (-1) 0, mk_item 1 ''a'' 0 0, mk_item 2 ''b'' 0 2,
               mk_item 3 ''c'' 0 5] 4"

text \<open>Siblings X (order 0) and Y (order 1).\<close>

definition xy_store :: store where
  "xy_store = mk_store [mk_item 0 ''X'' (-1) 0, mk_item 1 ''Y'' (-1) 1] 2"

text \<open>Siblings X and Y with the same order.\<close>

definition tie_store :: store where
  "tie_store = mk_store [mk_item 0 ''X'' (-1) 3, mk_item 1 ''Y'' (-1) 3] 2"

text \<open>A sibling group of size one.\<close>

definition single_store :: store where
  "single_store = mk_store [mk_item 0 ''A'' (-1) 0] 1"

text \<open>
  A sequence of calls in which every \<open>add_item\<close> returns and has a parent below
  \<open>next_id\<close>, and the store it builds from the empty store: a chain of three items, a
  move that would close a cycle (rejected), a move to the root and a reorder.
\<close>

definition example_calls :: "op list" where
  "example_calls =
     [Add ''a'' (-1), Add ''b'' 0, Add ''c'' 1, Move 0 2, Move 2 (-1), Reorder 2 ''UP'']"

definition example_outcomes :: "outcome list" where
  "example_outcomes =
     [Returned_id 0, Returned_id 1, Returned_id 2, Returned_bool False, Returned_bool True,
      Returned_bool True]"

definition example_result :: store where
  "example_result =
     mk_store [mk_item 0 ''a'' (-1) 2, mk_item 1 ''b'' 0 1, mk_item 2 ''c'' (-1) 1] 3"

text \<open>The store after \<open>add_item(a, 0)\<close> on the empty store: item 0 is its own parent.\<close>

definition self_parent_store :: store where
  "self_parent_store = mk_store [mk_item 0 ''a'' 0 1] 1"



text \<open>
  The store after \<open>add_item(a)\<close>, \<open>add_item(f, -2147483649)\<close>, which raises,
  \<open>add_item(g, 0)\<close> and \<open>move_item(0, 1)\<close> on the empty store: two items have the
  id 1, and the walk of \<open>move_item\<close> saw only the first.
\<close>

definition twin_store :: store where
  "twin_store =
     mk_store [mk_item 0 ''a'' 1 2, mk_item 1 ''f'' (-1) 0, mk_item 1 ''g'' 0 1] 2"


section \<open>Basic facts\<close>

subsection \<open>Lookups\<close>

lemma first_index_Some:
  "first_index P xs = Some k \<Longrightarrow> k < length xs \<and> P (xs ! k) \<and> (\<forall>j<k. \<not> P (xs ! j))"
proof (induction xs arbitrary: k)
  case Nil
  then show ?case by simp
next
  case (Cons x xs)
  show ?case
  proof (cases "P x")
    case True
    with Cons.prems show ?thesis by simp
  next
    case False
    with Cons.prems obtain k' where k': "first_index P xs = Some k'" "k = Suc k'"
      by auto
    from Cons.IH [OF k'(1)] False k'(2) show ?thesis
      by (auto simp: nth_Cons split: nat.splits)
  qed
qed

lemma first_index_None: "first_index P xs = None \<longleftrightarrow> (\<forall>x\<in>set xs. \<not> P x)"
  by (induction xs) auto

lemma first_index_mem: "x \<in> set xs \<Longrightarrow> \<exists>k. first_index (\<lambda>y. y = x) xs = Some k"
  using first_index_None [of "\<lambda>y. y = x" xs] by (cases "first_index (\<lambda>y. y = x) xs") auto

lemma first_index_distinct:
  "distinct xs \<Longrightarrow> k < length xs \<Longrightarrow> first_index (\<lambda>y. y = xs ! k) xs = Some k"
proof -
  assume d: "distinct xs" and k: "k < length xs"
  then obtain j where j: "first_index (\<lambda>y. y = xs ! k) xs = Some j"
    using first_index_mem [of "xs ! k" xs] by auto
  from first_index_Some [OF j] have "j < length xs" "xs ! j = xs ! k" by auto
  with d k have "j = k" by (simp add: nth_eq_iff_index_eq)
  with j show ?thesis by simp
qed

lemma get_item_by_id_Some:
  "get_item_by_id s item_id = Some c \<Longrightarrow> c < length (items s) \<and> id_of (items s ! c) = item_id"
  unfolding get_item_by_id_def by (drule first_index_Some) simp

lemma get_item_by_id_None:
  "get_item_by_id s item_id = None \<longleftrightarrow> (\<forall>i\<in>set (items s). id_of i \<noteq> item_id)"
  unfolding get_item_by_id_def by (simp add: first_index_None)

lemma set_sorted_children:
  "set (sorted_children s p) = {i. i < length (items s) \<and> parent_id_of (items s ! i) = p}"
  by (auto simp: sorted_children_def)

lemma distinct_sorted_children: "distinct (sorted_children s p)"
  by (simp add: sorted_children_def)

lemma sorted_sorted_children: "sorted (map (\<lambda>i. order_of (items s ! i)) (sorted_children s p))"
  by (simp add: sorted_children_def)

lemma ancestor_walk_reaches:
  assumes "(a, b) \<in> (parent_edge s)\<^sup>*" and "get_item_by_id s b \<noteq> None"
  shows "ancestor_walk s b (get_item_by_id s a) = Some True"
  using assms
proof (induction rule: converse_rtrancl_induct)
  case base
  then obtain c where c: "get_item_by_id s b = Some c" by auto
  from get_item_by_id_Some [OF c] c show ?case
    by (simp add: ancestor_walk.simps)
next
  case (step x y)
  from step.hyps(1) obtain c where c: "get_item_by_id s x = Some c" "parent_id_of (items s ! c) = y"
    by (auto simp: parent_edge_def)
  from step.IH [OF step.prems] c show ?case
    by (subst ancestor_walk.simps) simp
qed

section \<open>Rejected moves\<close>

text \<open>
  Claim C3. \<open>move_item\<close> returns false and leaves the whole store as it is when the
  item does not exist, when the new parent is neither the sentinel nor an existing item,
  and when the upward walk from the new parent reaches the item (the new parent is the
  item itself or one of its descendants).
\<close>

theorem move_item_rejected:
  assumes "get_item_by_id s item_id = None
     \<or> (new_parent_id \<noteq> -1 \<and> get_item_by_id s new_parent_id = None)
     \<or> (new_parent_id, item_id) \<in> (parent_edge s)\<^sup>*"
  shows "move_item s item_id new_parent_id = Some (Inr False, s)"
proof (cases "get_item_by_id s item_id")
  case None
  then show ?thesis by (simp add: move_item_def)
next
  case (Some item)
  show ?thesis
  proof (cases "new_parent_id \<noteq> -1 \<and> get_item_by_id s new_parent_id = None")
    case True
    with Some show ?thesis by (simp add: move_item_def)
  next
    case False
    with assms Some have r: "(new_parent_id, item_id) \<in> (parent_edge s)\<^sup>*" by auto
    with Some have w: "ancestor_walk s item_id (get_item_by_id s new_parent_id) = Some True"
      by (intro ancestor_walk_reaches) auto
    from r have "new_parent_id = item_id \<or> get_item_by_id s new_parent_id \<noteq> None"
      by (auto elim: converse_rtranclE simp: parent_edge_def)
    with Some w show ?thesis by (auto simp: move_item_def)
  qed
qed

text \<open>
  On the chain A, B below A, C below B: moving A below C is rejected, and so is moving
  an item that does not exist.
\<close>

theorem move_item_rejected_witness:
  "(2, 0) \<in> (parent_edge chain_store)\<^sup>*
   \<and> move_item chain_store 0 2 = Some (Inr False, chain_store)
   \<and> map parent_id_of (items chain_store) = [-1, 0, 1]
   \<and> get_item_by_id chain_store 7 = None
   \<and> move_item chain_store 7 0 = Some (Inr False, chain_store)"
proof -
  have e1: "(2, 1) \<in> parent_edge chain_store"
    by (simp add: parent_edge_def get_item_by_id_def chain_store_def mk_store_def mk_item_def)
  have e2: "(1, 0) \<in> parent_edge chain_store"
    by (simp add: parent_edge_def get_item_by_id_def chain_store_def mk_store_def mk_item_def)
  have r: "(2, 0) \<in> (parent_edge chain_store)\<^sup>*"
    using e1 e2 by (meson rtrancl.rtrancl_into_rtrancl rtrancl.rtrancl_refl)
  have n: "get_item_by_id chain_store 7 = None"
    by (simp add: get_item_by_id_def chain_store_def mk_store_def mk_item_def)
  have p: "map parent_id_of (items chain_store) = [-1, 0, 1]"
    by (simp add: chain_store_def mk_store_def mk_item_def)
  show ?thesis
    using r n p move_item_rejected [of chain_store 0 2] move_item_rejected [of chain_store 7 0]
    by simp
qed

section \<open>The order given by \<open>add_item\<close>\<close>

lemma max_default_Max: "xs \<noteq> [] \<Longrightarrow> max_default xs d = Max (set xs)"
  by (cases xs) (simp_all add: Max.set_eq_fold [symmetric])

lemma get_next_order_appended:
  assumes "parent_id_of x = parent_id"
  shows "get_next_order (s\<lparr>items := items s @ [x]\<rparr>) parent_id =
     Max (insert (order_of x) (order_of ` {i \<in> set (items s). parent_id_of i = parent_id})) + 1"
proof -
  have "max_default (map order_of (filter (\<lambda>item. parent_id_of item = parent_id) (items s)) @ [order_of x]) (-1)
     = Max (insert (order_of x) (order_of ` {i \<in> set (items s). parent_id_of i = parent_id}))"
    by (subst max_default_Max) (simp_all add: insert_commute)
  with assms show ?thesis by (simp add: get_next_order_def)
qed

lemma add_item_eq:
  "add_item s name parent_id =
     (let ord = Max (insert 0 (order_of ` {i \<in> set (items s). parent_id_of i = parent_id})) + 1;
          new = \<lparr>id_of = next_id s, name_of = c_string name, parent_id_of = -1, order_of = 0\<rparr>
      in if \<not> in_range parent_id then
           (Inl ValueError, s\<lparr>items := items s @ [new]\<rparr>)
         else if \<not> in_range ord then
           (Inl ValueError, s\<lparr>items := items s @ [new\<lparr>parent_id_of := parent_id\<rparr>]\<rparr>)
         else if \<not> in_range (next_id s + 1) then
           (Inl ValueError,
            s\<lparr>items := items s @ [new\<lparr>parent_id_of := parent_id, order_of := ord\<rparr>]\<rparr>)
         else
           (Inr (next_id s),
            s\<lparr>items := items s @ [new\<lparr>parent_id_of := parent_id, order_of := ord\<rparr>],
              next_id := next_id s + 1\<rparr>))"
proof -
  have m: "get_next_order
      (s\<lparr>items := items s @
         [\<lparr>id_of = next_id s, name_of = c_string name, parent_id_of = parent_id, order_of = 0\<rparr>]\<rparr>)
      parent_id
     = Max (insert 0 (order_of ` {i \<in> set (items s). parent_id_of i = parent_id})) + 1"
    by (subst get_next_order_appended) simp_all
  show ?thesis
    by (simp add: add_item_def update_item_def default_item_def m Let_def)
qed

text \<open>
  Claim C4 says that \<open>add_item\<close> always succeeds and assigns one more than the largest
  order among the existing items with the same parent, and 0 when there is none. The
  code assigns one more than the largest of 0 and those orders: the new element is
  already in the collection, with the default order 0 and the parent just assigned, when
  \<open>get_next_order\<close> runs, so the \<open>default=-1\<close> of the \<open>max\<close> is never used. (When the
  parent or that order is outside the 32-bit range the call raises and the order stays
  0.) On the empty store the first item gets order 1, not 0; below a parent with children
  of orders 0, 2 and 5 the new item gets order 6.
\<close>

theorem add_item_order:
  "order_of (last (items (snd (add_item s name parent_id)))) =
     (if in_range parent_id \<and>
         in_range (Max (insert 0 (order_of ` {i \<in> set (items s). parent_id_of i = parent_id})) + 1)
      then Max (insert 0 (order_of ` {i \<in> set (items s). parent_id_of i = parent_id})) + 1
      else 0)
   \<and> add_item empty_store ''a'' (-1) = (Inr 0, mk_store [mk_item 0 ''a'' (-1) 1] 1)
   \<and> order_of (last (items (snd (add_item gaps_store ''d'' 0)))) = 6"
proof -
  have 1: "order_of (last (items (snd (add_item s name parent_id)))) =
     (if in_range parent_id \<and>
         in_range (Max (insert 0 (order_of ` {i \<in> set (items s). parent_id_of i = parent_id})) + 1)
      then Max (insert 0 (order_of ` {i \<in> set (items s). parent_id_of i = parent_id})) + 1
      else 0)"
    by (simp add: add_item_eq Let_def)
  have 2: "add_item empty_store ''a'' (-1) = (Inr 0, mk_store [mk_item 0 ''a'' (-1) 1] 1)"
    by (simp add: add_item_def update_item_def get_next_order_def default_item_def in_range_def
        c_string_def empty_store_def mk_store_def mk_item_def)
  have 3: "order_of (last (items (snd (add_item gaps_store ''d'' 0)))) = 6"
    by (simp add: add_item_def update_item_def get_next_order_def default_item_def in_range_def
        c_string_def gaps_store_def mk_store_def mk_item_def)
  from 1 2 3 show ?thesis by blast
qed

section \<open>Rejected reorders\<close>

lemma length_sorted_children:
  "length (sorted_children s p) = length (filter (\<lambda>i. parent_id_of i = p) (items s))"
proof -
  have "filter (\<lambda>i. parent_id_of i = p) (map ((!) (items s)) [0..<length (items s)])
      = map ((!) (items s)) (filter (\<lambda>i. parent_id_of (items s ! i) = p) [0..<length (items s)])"
    by (simp add: filter_map comp_def)
  then have "length (filter (\<lambda>i. parent_id_of i = p) (items s))
      = length (filter (\<lambda>i. parent_id_of (items s ! i) = p) [0..<length (items s)])"
    by (simp add: map_nth)
  then show ?thesis by (simp add: sorted_children_def)
qed

lemma item_in_siblings:
  "get_item_by_id s item_id = Some item \<Longrightarrow>
   item \<in> set (sorted_children s (parent_id_of (items s ! item)))"
  by (simp add: set_sorted_children get_item_by_id_Some)

lemma sibling_index:
  assumes "get_item_by_id s item_id = Some item"
  shows "\<exists>idx. first_index (\<lambda>i. i = item) (sorted_children s (parent_id_of (items s ! item))) = Some idx
     \<and> idx < length (sorted_children s (parent_id_of (items s ! item)))
     \<and> sorted_children s (parent_id_of (items s ! item)) ! idx = item"
proof -
  from first_index_mem [OF item_in_siblings [OF assms]] obtain idx where
    i: "first_index (\<lambda>i. i = item) (sorted_children s (parent_id_of (items s ! item))) = Some idx"
    by blast
  from first_index_Some [OF i] i show ?thesis by blast
qed

text \<open>
  Claim C8. \<open>reorder_item\<close> returns false and leaves the store as it is when the item
  does not exist, when the direction is UP and the item is the first of its sorted sibling
  group, when the direction is DOWN and the item is the last, and, for either direction,
  when the sibling group has size one.
\<close>

theorem reorder_item_rejected:
  assumes "get_item_by_id s item_id = None
     \<or> (\<exists>item. get_item_by_id s item_id = Some item \<and>
          (direction = ''UP'' \<and> hd (sorted_children s (parent_id_of (items s ! item))) = item
         \<or> direction = ''DOWN'' \<and> last (sorted_children s (parent_id_of (items s ! item))) = item
         \<or> length (filter (\<lambda>i. parent_id_of i = parent_id_of (items s ! item)) (items s)) = 1))"
  shows "reorder_item s item_id direction = Some (False, s)"
proof (cases "get_item_by_id s item_id")
  case None
  then show ?thesis by (simp add: reorder_item_def)
next
  case (Some item)
  define sibs where "sibs = sorted_children s (parent_id_of (items s ! item))"
  from sibling_index [OF Some] obtain idx where
    idx: "first_index (\<lambda>i. i = item) sibs = Some idx" "idx < length sibs" "sibs ! idx = item"
    unfolding sibs_def by blast
  have d: "distinct sibs" by (simp add: sibs_def distinct_sorted_children)
  from assms Some consider
      (up) "direction = ''UP''" "hd sibs = item"
    | (down) "direction = ''DOWN''" "last sibs = item"
    | (one) "length sibs = 1"
    by (auto simp: sibs_def length_sorted_children)
  then have "\<not> (direction = ''UP'' \<and> idx > 0) \<and> \<not> (direction = ''DOWN'' \<and> int idx < int (length sibs) - 1)"
  proof cases
    case up
    from idx(2) have "hd sibs = sibs ! 0" by (cases sibs) simp_all
    with up idx have "sibs ! idx = sibs ! 0" by simp
    moreover from idx(2) have "0 < length sibs" by (cases sibs) simp_all
    ultimately have "idx = 0" using idx(2) d nth_eq_iff_index_eq [of sibs idx 0] by blast
    with up show ?thesis by simp
  next
    case down
    from idx(2) have "last sibs = sibs ! (length sibs - 1)" by (cases sibs rule: rev_cases) simp_all
    with down idx have "sibs ! idx = sibs ! (length sibs - 1)" by simp
    moreover from idx(2) have "length sibs - 1 < length sibs" by (cases sibs) simp_all
    ultimately have "idx = length sibs - 1"
      using idx(2) d nth_eq_iff_index_eq [of sibs idx "length sibs - 1"] by blast
    with down show ?thesis by simp
  next
    case one
    with idx(2) show ?thesis by simp
  qed
  with Some idx(1) show ?thesis
    by (simp add: reorder_item_def sibs_def [symmetric] Let_def)
qed

theorem reorder_item_rejected_witness:
  "get_item_by_id single_store 0 = Some 0
   \<and> length (filter (\<lambda>i. parent_id_of i = parent_id_of (items single_store ! 0)) (items single_store)) = 1
   \<and> reorder_item single_store 0 ''UP'' = Some (False, single_store)
   \<and> reorder_item single_store 0 ''DOWN'' = Some (False, single_store)
   \<and> get_item_by_id single_store 5 = None
   \<and> reorder_item single_store 5 ''UP'' = Some (False, single_store)
   \<and> get_item_by_id xy_store 1 = Some 1
   \<and> last (sorted_children xy_store (parent_id_of (items xy_store ! 1))) = 1
   \<and> reorder_item xy_store 1 ''DOWN'' = Some (False, xy_store)"
proof -
  have a: "get_item_by_id single_store 0 = Some 0"
    by (simp add: get_item_by_id_def single_store_def mk_store_def mk_item_def)
  have b: "length (filter (\<lambda>i. parent_id_of i = parent_id_of (items single_store ! 0)) (items single_store)) = 1"
    by (simp add: single_store_def mk_store_def mk_item_def)
  have c: "get_item_by_id single_store 5 = None"
    by (simp add: get_item_by_id_def single_store_def mk_store_def mk_item_def)
  have d: "get_item_by_id xy_store 1 = Some 1"
    by (simp add: get_item_by_id_def xy_store_def mk_store_def mk_item_def)
  have e: "last (sorted_children xy_store (parent_id_of (items xy_store ! 1))) = 1"
    by (simp add: sorted_children_def xy_store_def mk_store_def mk_item_def)
  show ?thesis
    using a b c d e
      reorder_item_rejected [of single_store 0 "''UP''"]
      reorder_item_rejected [of single_store 0 "''DOWN''"]
      reorder_item_rejected [of single_store 5 "''UP''"]
      reorder_item_rejected [of xy_store 1 "''DOWN''"]
    by simp
qed

section \<open>Reordering\<close>

subsection \<open>The sorted sibling group\<close>

lemma sorted_wrt_insort_key_stable:
  fixes f :: "nat \<Rightarrow> int"
  assumes "sorted_wrt (\<lambda>a b. f a < f b \<or> (f a = f b \<and> a < b)) ys" and "\<forall>y\<in>set ys. x < y"
  shows "sorted_wrt (\<lambda>a b. f a < f b \<or> (f a = f b \<and> a < b)) (insort_key f x ys)"
  using assms
proof (induction ys)
  case Nil
  then show ?case by simp
next
  case (Cons y ys)
  show ?case
  proof (cases "f x \<le> f y")
    case True
    with Cons.prems show ?thesis by (auto simp: set_insort_key)
  next
    case False
    with Cons show ?thesis by (auto simp: set_insort_key)
  qed
qed

lemma sorted_wrt_sort_key_stable:
  fixes f :: "nat \<Rightarrow> int"
  shows "sorted_wrt (<) xs \<Longrightarrow>
    sorted_wrt (\<lambda>a b. f a < f b \<or> (f a = f b \<and> a < b)) (sort_key f xs)"
proof (induction xs)
  case Nil
  then show ?case by simp
next
  case (Cons x xs)
  then show ?case by (simp add: sorted_wrt_insort_key_stable)
qed

lemma sorted_children_stable: "sorted_wrt (stable_less s) (sorted_children s p)"
proof -
  have "sorted_wrt (<) (filter (\<lambda>i. parent_id_of (items s ! i) = p) [0..<length (items s)])"
    by (simp add: sorted_wrt_filter)
  from sorted_wrt_sort_key_stable [OF this, of "\<lambda>i. order_of (items s ! i)"]
  show ?thesis
    unfolding stable_less_def [abs_def] sorted_children_def .
qed

lemma swap_items:
  assumes "item < length (items s)" "swap_item \<noteq> item"
  shows "update_item swap_item (\<lambda>i. i\<lparr>order_of := b\<rparr>) (update_item item (\<lambda>i. i\<lparr>order_of := a\<rparr>) s)
     = s\<lparr>items := (items s)[item := (items s ! item)\<lparr>order_of := a\<rparr>,
                           swap_item := (items s ! swap_item)\<lparr>order_of := b\<rparr>]\<rparr>"
  using assms by (simp add: update_item_def)

lemma reorder_item_cases:
  assumes "get_item_by_id s item_id = Some item"
  obtains idx where
    "idx < length (sorted_children s (parent_id_of (items s ! item)))"
    "sorted_children s (parent_id_of (items s ! item)) ! idx = item"
    "reorder_item s item_id direction =
      (if direction = ''UP'' \<and> 0 < idx then
         Some (True, s\<lparr>items := (items s)
           [item := (items s ! item)\<lparr>order_of :=
               order_of (items s ! (sorted_children s (parent_id_of (items s ! item)) ! (idx - 1)))\<rparr>,
            sorted_children s (parent_id_of (items s ! item)) ! (idx - 1) :=
               (items s ! (sorted_children s (parent_id_of (items s ! item)) ! (idx - 1)))
                 \<lparr>order_of := order_of (items s ! item)\<rparr>]\<rparr>)
       else if direction = ''DOWN'' \<and> idx + 1 < length (sorted_children s (parent_id_of (items s ! item))) then
         Some (True, s\<lparr>items := (items s)
           [item := (items s ! item)\<lparr>order_of :=
               order_of (items s ! (sorted_children s (parent_id_of (items s ! item)) ! (idx + 1)))\<rparr>,
            sorted_children s (parent_id_of (items s ! item)) ! (idx + 1) :=
               (items s ! (sorted_children s (parent_id_of (items s ! item)) ! (idx + 1)))
                 \<lparr>order_of := order_of (items s ! item)\<rparr>]\<rparr>)
       else Some (False, s))"
proof -
  define sibs where "sibs = sorted_children s (parent_id_of (items s ! item))"
  from sibling_index [OF assms] obtain idx where
    idx: "first_index (\<lambda>i. i = item) sibs = Some idx" "idx < length sibs" "sibs ! idx = item"
    unfolding sibs_def by blast
  have d: "distinct sibs" by (simp add: sibs_def distinct_sorted_children)
  have il: "item < length (items s)" using get_item_by_id_Some [OF assms] by simp
  have up: "sibs ! (idx - 1) \<noteq> item" if "0 < idx"
  proof
    assume "sibs ! (idx - 1) = item"
    with idx(3) have "sibs ! (idx - 1) = sibs ! idx" by simp
    moreover from idx(2) have "idx - 1 < length sibs" by simp
    ultimately have "idx - 1 = idx" using d idx(2) nth_eq_iff_index_eq [of sibs "idx - 1" idx] by blast
    with that show False by simp
  qed
  have down: "sibs ! (idx + 1) \<noteq> item" if "idx + 1 < length sibs"
  proof
    assume "sibs ! (idx + 1) = item"
    with idx(3) have "sibs ! (idx + 1) = sibs ! idx" by simp
    then have "idx + 1 = idx" using d idx(2) that nth_eq_iff_index_eq [of sibs "idx + 1" idx] by blast
    then show False by simp
  qed
  have lt: "(int idx < int (length sibs) - 1) = (idx + 1 < length sibs)" by auto
  have "reorder_item s item_id direction =
      (if direction = ''UP'' \<and> 0 < idx then
         Some (True, s\<lparr>items := (items s)
           [item := (items s ! item)\<lparr>order_of := order_of (items s ! (sibs ! (idx - 1)))\<rparr>,
            sibs ! (idx - 1) := (items s ! (sibs ! (idx - 1)))\<lparr>order_of := order_of (items s ! item)\<rparr>]\<rparr>)
       else if direction = ''DOWN'' \<and> idx + 1 < length sibs then
         Some (True, s\<lparr>items := (items s)
           [item := (items s ! item)\<lparr>order_of := order_of (items s ! (sibs ! (idx + 1)))\<rparr>,
            sibs ! (idx + 1) := (items s ! (sibs ! (idx + 1)))\<lparr>order_of := order_of (items s ! item)\<rparr>]\<rparr>)
       else Some (False, s))"
    using assms idx(1) il up down
    by (simp add: reorder_item_def sibs_def [symmetric] Let_def lt swap_items)
  with idx(2,3) that show thesis unfolding sibs_def by blast
qed

subsection \<open>A successful reorder\<close>

lemma sorted_children_parent:
  "idx < length (sorted_children s p) \<Longrightarrow>
   sorted_children s p ! idx < length (items s)
   \<and> parent_id_of (items s ! (sorted_children s p ! idx)) = p"
  using set_sorted_children [of s p] nth_mem [of idx "sorted_children s p"] by auto

lemma nth_neq_distinct:
  "distinct xs \<Longrightarrow> i < length xs \<Longrightarrow> j < length xs \<Longrightarrow> i \<noteq> j \<Longrightarrow> xs ! i \<noteq> xs ! j"
  by (simp add: nth_eq_iff_index_eq)

lemma map_update_same: "f x = f (xs ! i) \<Longrightarrow> map f (xs[i := x]) = map f xs"
  by (cases "i < length xs") (simp_all add: map_update list_update_same_conv list_update_beyond)

text \<open>
  Claim C7. When \<open>reorder_item\<close> succeeds, the item and its neighbour in the sorted
  sibling group (the one before it for UP, the one after it for DOWN) have exchanged their
  orders and nothing else has changed: the other elements of the collection, the id, name
  and parent of every item, \<open>next_id\<close> and \<open>active_index\<close> are as before.
\<close>

theorem reorder_item_swap:
  assumes "reorder_item s item_id direction = Some (True, s')"
  shows "\<exists>item swap_item idx.
      get_item_by_id s item_id = Some item
    \<and> idx < length (sorted_children s (parent_id_of (items s ! item)))
    \<and> sorted_children s (parent_id_of (items s ! item)) ! idx = item
    \<and> (direction = ''UP'' \<and> 0 < idx
          \<and> swap_item = sorted_children s (parent_id_of (items s ! item)) ! (idx - 1)
        \<or> direction = ''DOWN'' \<and> idx + 1 < length (sorted_children s (parent_id_of (items s ! item)))
          \<and> swap_item = sorted_children s (parent_id_of (items s ! item)) ! (idx + 1))
    \<and> swap_item \<noteq> item \<and> item < length (items s) \<and> swap_item < length (items s)
    \<and> parent_id_of (items s ! swap_item) = parent_id_of (items s ! item)
    \<and> items s' = (items s)
          [item := (items s ! item)\<lparr>order_of := order_of (items s ! swap_item)\<rparr>,
           swap_item := (items s ! swap_item)\<lparr>order_of := order_of (items s ! item)\<rparr>]
    \<and> order_of (items s' ! item) = order_of (items s ! swap_item)
    \<and> order_of (items s' ! swap_item) = order_of (items s ! item)
    \<and> map id_of (items s') = map id_of (items s)
    \<and> map name_of (items s') = map name_of (items s)
    \<and> map parent_id_of (items s') = map parent_id_of (items s)
    \<and> next_id s' = next_id s \<and> active_index s' = active_index s"
proof -
  from assms obtain item where item: "get_item_by_id s item_id = Some item"
    by (cases "get_item_by_id s item_id") (auto simp: reorder_item_def)
  define sibs where "sibs = sorted_children s (parent_id_of (items s ! item))"
  have d: "distinct sibs" by (simp add: sibs_def distinct_sorted_children)
  have il: "item < length (items s)" using get_item_by_id_Some [OF item] by simp
  obtain idx where idx: "idx < length sibs" "sibs ! idx = item"
    and r: "reorder_item s item_id direction =
      (if direction = ''UP'' \<and> 0 < idx then
         Some (True, s\<lparr>items := (items s)
           [item := (items s ! item)\<lparr>order_of := order_of (items s ! (sibs ! (idx - 1)))\<rparr>,
            sibs ! (idx - 1) := (items s ! (sibs ! (idx - 1)))\<lparr>order_of := order_of (items s ! item)\<rparr>]\<rparr>)
       else if direction = ''DOWN'' \<and> idx + 1 < length sibs then
         Some (True, s\<lparr>items := (items s)
           [item := (items s ! item)\<lparr>order_of := order_of (items s ! (sibs ! (idx + 1)))\<rparr>,
            sibs ! (idx + 1) := (items s ! (sibs ! (idx + 1)))\<lparr>order_of := order_of (items s ! item)\<rparr>]\<rparr>)
       else Some (False, s))"
    unfolding sibs_def by (rule reorder_item_cases [OF item, of direction]) blast
  define j where "j = (if direction = ''UP'' \<and> 0 < idx then idx - 1 else idx + 1)"
  define swap_item where "swap_item = sibs ! j"
  from assms r have dir: "direction = ''UP'' \<and> 0 < idx \<or> direction = ''DOWN'' \<and> idx + 1 < length sibs"
    by (auto split: if_splits)
  with idx(1) have j: "j < length sibs" "j \<noteq> idx" by (auto simp: j_def)
  from dir have which: "direction = ''UP'' \<and> 0 < idx \<and> swap_item = sibs ! (idx - 1)
        \<or> direction = ''DOWN'' \<and> idx + 1 < length sibs \<and> swap_item = sibs ! (idx + 1)"
    by (auto simp: swap_item_def j_def)
  from nth_neq_distinct [OF d j(1) idx(1) j(2)] idx(2) have ne: "swap_item \<noteq> item"
    by (simp add: swap_item_def)
  from sorted_children_parent [of j s "parent_id_of (items s ! item)"] j(1)
  have sw: "swap_item < length (items s)"
    "parent_id_of (items s ! swap_item) = parent_id_of (items s ! item)"
    by (simp_all add: swap_item_def sibs_def)
  from assms r dir have s': "s' = s\<lparr>items := (items s)
          [item := (items s ! item)\<lparr>order_of := order_of (items s ! swap_item)\<rparr>,
           swap_item := (items s ! swap_item)\<lparr>order_of := order_of (items s ! item)\<rparr>]\<rparr>"
    by (auto simp: swap_item_def j_def split: if_splits)
  have m1: "map id_of (items s') = map id_of (items s)"
    using ne by (simp add: s' map_update_same)
  have m2: "map name_of (items s') = map name_of (items s)"
    using ne by (simp add: s' map_update_same)
  have m3: "map parent_id_of (items s') = map parent_id_of (items s)"
    using ne by (simp add: s' map_update_same)
  have o1: "order_of (items s' ! item) = order_of (items s ! swap_item)"
    using ne il by (simp add: s')
  have o2: "order_of (items s' ! swap_item) = order_of (items s ! item)"
    using sw(1) by (simp add: s')
  have f: "items s' = (items s)
          [item := (items s ! item)\<lparr>order_of := order_of (items s ! swap_item)\<rparr>,
           swap_item := (items s ! swap_item)\<lparr>order_of := order_of (items s ! item)\<rparr>]"
    "next_id s' = next_id s" "active_index s' = active_index s"
    by (simp_all add: s')
  from item idx which ne il sw m1 m2 m3 o1 o2 f show ?thesis
    unfolding sibs_def by blast
qed

text \<open>
  On the siblings X (order 0) and Y (order 1): moving Y up succeeds, X has order 1 and Y
  order 0 afterwards, and the flattening lists Y before X.
\<close>

theorem reorder_item_swap_witness:
  "reorder_item xy_store 1 ''UP''
     = Some (True, mk_store [mk_item 0 ''X'' (-1) 1, mk_item 1 ''Y'' (-1) 0] 2)
   \<and> flatten_hierarchy 2 (mk_store [mk_item 0 ''X'' (-1) 1, mk_item 1 ''Y'' (-1) 0] 2)
     = Some [(1, 0), (0, 0)]
   \<and> map id_of (items (mk_store [mk_item 0 ''X'' (-1) 1, mk_item 1 ''Y'' (-1) 0] 2))
     = map id_of (items xy_store)
   \<and> next_id (mk_store [mk_item 0 ''X'' (-1) 1, mk_item 1 ''Y'' (-1) 0] 2) = next_id xy_store"
proof -
  have h: "reorder_item xy_store 1 ''UP''
     = Some (True, mk_store [mk_item 0 ''X'' (-1) 1, mk_item 1 ''Y'' (-1) 0] 2)"
    by (simp add: reorder_item_def get_item_by_id_def sorted_children_def update_item_def
        xy_store_def mk_store_def mk_item_def)
  have fl: "flatten_hierarchy 2 (mk_store [mk_item 0 ''X'' (-1) 1, mk_item 1 ''Y'' (-1) 0] 2)
     = Some [(1, 0), (0, 0)]"
    by (simp add: flatten_hierarchy_def sorted_children_def numeral_2_eq_2 mk_store_def mk_item_def)
  from reorder_item_swap [OF h] h fl show ?thesis by auto
qed

subsection \<open>Equal orders\<close>

lemma stable_less_asym: "stable_less s a b \<Longrightarrow> \<not> stable_less s b a"
  by (auto simp: stable_less_def)

lemma stable_less_order: "stable_less s a b \<Longrightarrow> order_of (items s ! a) \<le> order_of (items s ! b)"
  by (auto simp: stable_less_def)

text \<open>
  Claim C10. Take two siblings with equal orders and call \<open>reorder_item\<close> with UP on the
  one stored later. The call returns true, not a boundary failure, and the swap exchanges
  two equal orders: the store after the call is the store before it, so the order of every
  item and the output of \<open>flatten_hierarchy\<close> are the same.
\<close>

theorem reorder_item_tie:
  assumes "get_item_by_id s item_id = Some item"
    and "earlier < item"
    and "parent_id_of (items s ! earlier) = parent_id_of (items s ! item)"
    and "order_of (items s ! earlier) = order_of (items s ! item)"
  shows "reorder_item s item_id ''UP'' = Some (True, s)
    \<and> (\<exists>s'. reorder_item s item_id ''UP'' = Some (True, s')
          \<and> map order_of (items s') = map order_of (items s)
          \<and> flatten_hierarchy depth s' = flatten_hierarchy depth s)"
proof -
  define sibs where "sibs = sorted_children s (parent_id_of (items s ! item))"
  have d: "distinct sibs" by (simp add: sibs_def distinct_sorted_children)
  have st: "sorted_wrt (stable_less s) sibs" by (simp add: sibs_def sorted_children_stable)
  have il: "item < length (items s)" using get_item_by_id_Some [OF assms(1)] by simp
  obtain idx where idx: "idx < length sibs" "sibs ! idx = item"
    and r: "reorder_item s item_id ''UP'' =
      (if ''UP'' = ''UP'' \<and> 0 < idx then
         Some (True, s\<lparr>items := (items s)
           [item := (items s ! item)\<lparr>order_of := order_of (items s ! (sibs ! (idx - 1)))\<rparr>,
            sibs ! (idx - 1) := (items s ! (sibs ! (idx - 1)))\<lparr>order_of := order_of (items s ! item)\<rparr>]\<rparr>)
       else if ''UP'' = ''DOWN'' \<and> idx + 1 < length sibs then
         Some (True, s\<lparr>items := (items s)
           [item := (items s ! item)\<lparr>order_of := order_of (items s ! (sibs ! (idx + 1)))\<rparr>,
            sibs ! (idx + 1) := (items s ! (sibs ! (idx + 1)))\<lparr>order_of := order_of (items s ! item)\<rparr>]\<rparr>)
       else Some (False, s))"
    unfolding sibs_def by (rule reorder_item_cases [OF assms(1), of "''UP''"]) blast
  from assms(2,3) il have "earlier \<in> set sibs"
    by (simp add: sibs_def set_sorted_children)
  then obtain e where e: "e < length sibs" "sibs ! e = earlier"
    by (auto simp: in_set_conv_nth)
  from assms(2,4) have less: "stable_less s earlier item"
    by (simp add: stable_less_def)
  have "e < idx"
  proof (rule ccontr)
    assume "\<not> e < idx"
    moreover from assms(2) e(2) idx(2) have "e \<noteq> idx" by auto
    ultimately have "idx < e" by simp
    from sorted_wrt_nth_less [OF st this e(1)] e(2) idx(2) have "stable_less s item earlier"
      by simp
    with stable_less_asym [OF less] show False by simp
  qed
  then have pos: "0 < idx" by simp
  have lo: "order_of (items s ! earlier) \<le> order_of (items s ! (sibs ! (idx - 1)))"
  proof (cases "e = idx - 1")
    case True
    with e(2) show ?thesis by simp
  next
    case False
    with \<open>e < idx\<close> have "e < idx - 1" by simp
    moreover from idx(1) have "idx - 1 < length sibs" by simp
    ultimately have "stable_less s (sibs ! e) (sibs ! (idx - 1))"
      using sorted_wrt_nth_less [OF st] by blast
    with e(2) show ?thesis by (simp add: stable_less_order)
  qed
  from pos idx(1) have "stable_less s (sibs ! (idx - 1)) (sibs ! idx)"
    using sorted_wrt_nth_less [OF st, of "idx - 1" idx] by simp
  with idx(2) have hi: "order_of (items s ! (sibs ! (idx - 1))) \<le> order_of (items s ! item)"
    by (simp add: stable_less_order)
  from lo hi assms(4) have eq: "order_of (items s ! (sibs ! (idx - 1))) = order_of (items s ! item)"
    by simp
  have "(items s ! (sibs ! (idx - 1)))\<lparr>order_of := order_of (items s ! item)\<rparr>
      = items s ! (sibs ! (idx - 1))"
    using eq [symmetric] by simp
  moreover have "(items s ! item)\<lparr>order_of := order_of (items s ! (sibs ! (idx - 1)))\<rparr>
      = items s ! item"
    using eq by simp
  ultimately have "reorder_item s item_id ''UP'' = Some (True, s)"
    using r pos by simp
  then show ?thesis by simp
qed

theorem reorder_item_tie_witness:
  "get_item_by_id tie_store 1 = Some 1
   \<and> (0::nat) < 1
   \<and> parent_id_of (items tie_store ! 0) = parent_id_of (items tie_store ! 1)
   \<and> order_of (items tie_store ! 0) = order_of (items tie_store ! 1)
   \<and> reorder_item tie_store 1 ''UP'' = Some (True, tie_store)"
proof -
  have a: "get_item_by_id tie_store 1 = Some 1"
    by (simp add: get_item_by_id_def tie_store_def mk_store_def mk_item_def)
  have b: "parent_id_of (items tie_store ! 0) = parent_id_of (items tie_store ! 1)"
    by (simp add: tie_store_def mk_store_def mk_item_def)
  have c: "order_of (items tie_store ! 0) = order_of (items tie_store ! 1)"
    by (simp add: tie_store_def mk_store_def mk_item_def)
  from reorder_item_tie [OF a _ b c, of 0] a b c show ?thesis by simp
qed

section \<open>Flattening\<close>

subsection \<open>The loop of \<open>collect_items\<close> and the pre-order listing\<close>

lemma fold_collect_None:
  "fold (\<lambda>item collected. case collected of None \<Rightarrow> None | Some col \<Rightarrow> F item col) cs None = None"
  by (induction cs) simp_all

lemma fold_collect:
  assumes "\<forall>c\<in>set cs. sub c = map_option (\<lambda>ts. concat (map (spec_preorder (level + 1)) ts)) (forest c)"
  shows "fold (\<lambda>item collected.
             case collected of
               None \<Rightarrow> None
             | Some col \<Rightarrow>
                 (case sub item of
                    None \<Rightarrow> None
                  | Some sb \<Rightarrow> Some ((col @ [(item, level)]) @ sb)))
          cs (Some col)
     = map_option (\<lambda>ts. col @ concat (map (spec_preorder level) ts))
         (those (map (\<lambda>c. map_option (Node c) (forest c)) cs))"
  using assms
proof (induction cs arbitrary: col)
  case Nil
  then show ?case by simp
next
  case (Cons c cs)
  show ?case
  proof (cases "forest c")
    case None
    with Cons.prems have "sub c = None" by simp
    with None show ?thesis by (simp add: fold_collect_None)
  next
    case (Some ts')
    with Cons.prems have s: "sub c = Some (concat (map (spec_preorder (level + 1)) ts'))" by simp
    from Cons.prems have "\<forall>c\<in>set cs. sub c = map_option (\<lambda>ts. concat (map (spec_preorder (level + 1)) ts)) (forest c)"
      by simp
    from Cons.IH [OF this] s Some show ?thesis
      by (simp add: option.map_comp comp_def)
  qed
qed

lemma collect_items_forest:
  "collect_items depth s parent_id level
     = map_option (\<lambda>ts. concat (map (spec_preorder level) ts)) (spec_forest depth s parent_id)"
proof (induction depth arbitrary: parent_id level)
  case 0
  show ?case by simp
next
  case (Suc depth)
  have "\<forall>c\<in>set (sorted_children s parent_id).
      collect_items depth s (id_of (items s ! c)) (level + 1)
        = map_option (\<lambda>ts. concat (map (spec_preorder (level + 1)) ts))
            (spec_forest depth s (id_of (items s ! c)))"
    using Suc.IH by blast
  from fold_collect [where sub = "\<lambda>c. collect_items depth s (id_of (items s ! c)) (level + 1)"
      and forest = "\<lambda>c. spec_forest depth s (id_of (items s ! c))", OF this, of "[]"]
  show ?case by simp
qed

lemma those_map_mono:
  "those (map g xs) = Some ts \<Longrightarrow> (\<And>x t. x \<in> set xs \<Longrightarrow> g x = Some t \<Longrightarrow> g' x = Some t)
   \<Longrightarrow> those (map g' xs) = Some ts"
proof (induction xs arbitrary: ts)
  case Nil
  then show ?case by simp
next
  case (Cons x xs)
  from Cons.prems(1) obtain t ts' where t: "g x = Some t" "those (map g xs) = Some ts'" "ts = t # ts'"
    by (auto split: option.splits)
  from Cons.prems(2) [of x t] t(1) have "g' x = Some t" by simp
  moreover from Cons.IH [OF t(2)] Cons.prems(2) have "those (map g' xs) = Some ts'" by simp
  ultimately show ?case using t(3) by simp
qed

lemma spec_forest_Suc:
  "spec_forest depth s parent_id = Some ts \<Longrightarrow> spec_forest (Suc depth) s parent_id = Some ts"
proof (induction depth arbitrary: parent_id ts)
  case 0
  then show ?case by simp
next
  case (Suc depth)
  from Suc.prems have "those (map (\<lambda>c. map_option (Node c) (spec_forest depth s (id_of (items s ! c))))
              (sorted_children s parent_id)) = Some ts" by simp
  then have "those (map (\<lambda>c. map_option (Node c) (spec_forest (Suc depth) s (id_of (items s ! c))))
              (sorted_children s parent_id)) = Some ts"
    by (rule those_map_mono) (use Suc.IH in auto)
  then show ?case by simp
qed

lemma spec_forest_mono:
  "spec_forest depth s parent_id = Some ts \<Longrightarrow> spec_forest (depth + k) s parent_id = Some ts"
  by (induction k) (simp_all add: spec_forest_Suc del: spec_forest.simps)

lemma collect_items_mono:
  "collect_items depth s parent_id level = Some r \<Longrightarrow>
   collect_items (depth + k) s parent_id level = Some r"
  unfolding collect_items_forest by (auto simp: spec_forest_mono)

text \<open>
  Claim C1. \<open>flatten_hierarchy\<close> is the depth-first, pre-order listing of the forest
  below the sentinel \<open>-1\<close>, with the roots at depth 0 and the children of a node one
  deeper, listed after the node and before its next sibling. Each sibling group is
  exactly the items with that parent, each once, sorted by \<open>order\<close> ascending (and by
  storage position among equal orders). On the store with root items A (order 0) and
  B (order 1) and C (order 0) below A the result is A at depth 0, C at depth 1, B at
  depth 0, for every bound of at least 3 on the depth of the recursion.
\<close>

theorem flatten_hierarchy_preorder:
  "collect_items depth s parent_id level
     = map_option (\<lambda>ts. concat (map (spec_preorder level) ts)) (spec_forest depth s parent_id)
   \<and> flatten_hierarchy depth s
     = map_option (\<lambda>ts. concat (map (spec_preorder 0) ts)) (spec_forest depth s (-1))
   \<and> set (sorted_children s parent_id)
     = {i. i < length (items s) \<and> parent_id_of (items s ! i) = parent_id}
   \<and> distinct (sorted_children s parent_id)
   \<and> sorted (map (\<lambda>i. order_of (items s ! i)) (sorted_children s parent_id))
   \<and> sorted_wrt (stable_less s) (sorted_children s parent_id)
   \<and> flatten_hierarchy (3 + k) abc_store = Some [(0, 0), (2, 1), (1, 0)]
   \<and> map (\<lambda>(i, level). (name_of (items abc_store ! i), level)) [(0, 0), (2, 1), (1, 0)]
     = [(''A'', 0), (''C'', 1), (''B'', 0::int)]"
proof -
  have "flatten_hierarchy 3 abc_store = Some [(0, 0), (2, 1), (1, 0)]"
    by (simp add: flatten_hierarchy_def sorted_children_def numeral_3_eq_3
        abc_store_def mk_store_def mk_item_def)
  then have "flatten_hierarchy (3 + k) abc_store = Some [(0, 0), (2, 1), (1, 0)]"
    unfolding flatten_hierarchy_def by (rule collect_items_mono)
  moreover have "map (\<lambda>(i, level). (name_of (items abc_store ! i), level)) [(0, 0), (2, 1), (1, 0)]
     = [(''A'', 0), (''C'', 1), (''B'', 0::int)]"
    by (simp add: abc_store_def mk_store_def mk_item_def)
  ultimately show ?thesis
    by (simp add: collect_items_forest flatten_hierarchy_def set_sorted_children
        distinct_sorted_children sorted_sorted_children sorted_children_stable)
qed

section \<open>Sequences of calls\<close>

subsection \<open>What one call changes\<close>

lemma move_item_cases:
  assumes "move_item s item_id new_parent_id = Some (res, s')"
  shows "(res = Inr False \<and> s' = s)
    \<or> (res \<noteq> Inr False \<and> (\<exists>item x. get_item_by_id s item_id = Some item
          \<and> (new_parent_id = -1 \<or> get_item_by_id s new_parent_id \<noteq> None)
          \<and> ancestor_walk s item_id (get_item_by_id s new_parent_id) = Some False
          \<and> s' = s\<lparr>items := (items s)[item := x]\<rparr>
          \<and> id_of x = id_of (items s ! item)
          \<and> (parent_id_of x = new_parent_id \<or> x = items s ! item)))"
proof (cases "get_item_by_id s item_id")
  case None
  with assms show ?thesis by (simp add: move_item_def)
next
  case (Some item)
  have il: "item < length (items s)" using get_item_by_id_Some [OF Some] by simp
  show ?thesis
  proof (cases "new_parent_id = -1 \<or> get_item_by_id s new_parent_id \<noteq> None")
    case False
    with assms Some show ?thesis by (simp add: move_item_def)
  next
    case np: True
    show ?thesis
    proof (cases "ancestor_walk s item_id (get_item_by_id s new_parent_id)")
      case None
      with assms Some np show ?thesis by (simp add: move_item_def)
    next
      case w: (Some b)
      show ?thesis
      proof (cases b)
        case True
        with assms Some w np show ?thesis by (auto simp: move_item_def)
      next
        case False
        have s0: "s = s\<lparr>items := (items s)[item := items s ! item]\<rparr>" by simp
        show ?thesis
        proof (cases "in_range new_parent_id")
          case r: False
          with assms Some w np \<open>\<not> b\<close> have e: "res = Inl ValueError" "s' = s"
            by (auto simp: move_item_def)
          from Some np w \<open>\<not> b\<close> have "get_item_by_id s item_id = Some item
              \<and> (new_parent_id = -1 \<or> get_item_by_id s new_parent_id \<noteq> None)
              \<and> ancestor_walk s item_id (get_item_by_id s new_parent_id) = Some False
              \<and> s = s\<lparr>items := (items s)[item := items s ! item]\<rparr>
              \<and> id_of (items s ! item) = id_of (items s ! item)
              \<and> (parent_id_of (items s ! item) = new_parent_id \<or> items s ! item = items s ! item)"
            by simp
          with e show ?thesis by blast
        next
          case r: True
          let ?s1 = "update_item item (\<lambda>i. i\<lparr>parent_id_of := new_parent_id\<rparr>) s"
          show ?thesis
          proof (cases "in_range (get_next_order ?s1 new_parent_id)")
            case False
            with assms Some w np \<open>\<not> b\<close> r have "res = Inl ValueError"
              "s' = s\<lparr>items := (items s)[item := (items s ! item)\<lparr>parent_id_of := new_parent_id\<rparr>]\<rparr>"
              by (auto simp: move_item_def update_item_def Let_def)
            with Some np w \<open>\<not> b\<close> show ?thesis by auto
          next
            case True
            with assms Some w np \<open>\<not> b\<close> r il have "res = Inr True"
              "s' = s\<lparr>items := (items s)[item := (items s ! item)
                  \<lparr>parent_id_of := new_parent_id, order_of := get_next_order ?s1 new_parent_id\<rparr>]\<rparr>"
              by (auto simp: move_item_def update_item_def Let_def)
            with Some np w \<open>\<not> b\<close> show ?thesis by auto
          qed
        qed
      qed
    qed
  qed
qed

lemma map_update_same2:
  assumes "f x = f (xs ! i)" and "f y = f (xs ! j)"
  shows "map f (xs[i := x, j := y]) = map f xs"
proof -
  have "map f (xs[i := x, j := y]) = (map f (xs[i := x]))[j := f y]" by (simp add: map_update)
  also have "\<dots> = (map f xs)[j := f (xs ! j)]" using assms by (simp add: map_update_same)
  also have "\<dots> = map f xs"
    by (cases "j < length xs") (simp_all add: list_update_same_conv list_update_beyond)
  finally show ?thesis .
qed

lemma move_item_ids:
  assumes "move_item s item_id new_parent_id = Some (res, s')"
  shows "map id_of (items s') = map id_of (items s) \<and> next_id s' = next_id s"
  using move_item_cases [OF assms] by (auto simp: map_update_same)

lemma reorder_item_frame:
  assumes "reorder_item s item_id direction = Some (ok, s')"
  shows "map id_of (items s') = map id_of (items s)
    \<and> map parent_id_of (items s') = map parent_id_of (items s)
    \<and> next_id s' = next_id s"
proof (cases "get_item_by_id s item_id")
  case None
  with assms show ?thesis by (simp add: reorder_item_def)
next
  case (Some item)
  show ?thesis
    by (rule reorder_item_cases [OF Some, of direction])
      (use assms in \<open>auto simp: map_update_same2 split: if_splits\<close>)
qed




subsection \<open>Evaluating the examples\<close>

lemmas eval_defs =
  empty_store_def mk_store_def mk_item_def add_item_def items_remove_def default_item_def
  move_item_def reorder_item_def get_item_by_id_def ancestor_walk.simps update_item_def
  get_next_order_def sorted_children_def in_range_def c_string_def add_returns_def add_past_def

subsection \<open>The ids that \<open>add_item\<close> returns\<close>






subsection \<open>Items with a dangling parent\<close>

lemma those_map_Some:
  "those (map g xs) = Some ys \<Longrightarrow> y \<in> set ys \<Longrightarrow> \<exists>x\<in>set xs. g x = Some y"
proof (induction xs arbitrary: ys)
  case Nil
  then show ?case by simp
next
  case (Cons x xs)
  from Cons.prems(1) obtain z zs where z: "g x = Some z" "those (map g xs) = Some zs" "ys = z # zs"
    by (auto split: option.splits)
  show ?case
  proof (cases "y = z")
    case True
    with z(1) show ?thesis by simp
  next
    case False
    with Cons.prems(2) z(3) have "y \<in> set zs" by simp
    from Cons.IH [OF z(2) this] show ?thesis by auto
  qed
qed

lemma spec_forest_tree:
  assumes "spec_forest (Suc depth) s parent_id = Some ts" and "t \<in> set ts"
  obtains c ts' where "t = Node c ts'" "c \<in> set (sorted_children s parent_id)"
    "spec_forest depth s (id_of (items s ! c)) = Some ts'"
proof -
  from assms(1) have "those (map (\<lambda>c. map_option (Node c) (spec_forest depth s (id_of (items s ! c))))
      (sorted_children s parent_id)) = Some ts"
    by simp
  from those_map_Some [OF this assms(2)] obtain c where "c \<in> set (sorted_children s parent_id)"
    "map_option (Node c) (spec_forest depth s (id_of (items s ! c))) = Some t"
    by blast
  with that show thesis by auto
qed

lemma dangling_not_in_forest:
  assumes "dangling s r"
  shows "spec_forest depth s parent_id = Some ts \<Longrightarrow> parent_id \<noteq> parent_id_of (items s ! r) \<Longrightarrow>
    r \<notin> fst ` set (concat (map (spec_preorder level) ts))"
proof (induction depth arbitrary: parent_id ts level)
  case 0
  then show ?case by simp
next
  case (Suc depth)
  have "r \<notin> fst ` set (spec_preorder level t)" if "t \<in> set ts" for t
  proof -
    from Suc.prems(1) that obtain c ts' where t: "t = Node c ts'"
      and c: "c \<in> set (sorted_children s parent_id)"
      and f: "spec_forest depth s (id_of (items s ! c)) = Some ts'"
      by (rule spec_forest_tree)
    from c have cl: "c < length (items s)" and cp: "parent_id_of (items s ! c) = parent_id"
      by (simp_all add: set_sorted_children)
    from cp Suc.prems(2) have ne: "c \<noteq> r" by auto
    have "id_of (items s ! c) \<noteq> parent_id_of (items s ! r)"
    proof
      assume "id_of (items s ! c) = parent_id_of (items s ! r)"
      with assms cl have "c = r" by (simp add: dangling_def)
      with ne show False by simp
    qed
    from Suc.IH [OF f this, of "level + 1"] ne show ?thesis
      by (simp add: t)
  qed
  then show ?case by auto
qed

lemma add_item_dangling:
  assumes "parent_id \<noteq> -1" and "in_range parent_id" and "get_item_by_id s parent_id = None"
  shows "dangling (snd (add_item s name parent_id)) (length (items s))"
proof -
  from assms(3) have "\<forall>j<length (items s). id_of (items s ! j) \<noteq> parent_id"
    by (simp add: get_item_by_id_None)
  with assms(1,2) show ?thesis
    by (auto simp: dangling_def add_item_eq Let_def nth_append)
qed

text \<open>
  Claim C9, as the specification states it, fails. An item created with a parent id that
  does not exist becomes visible as soon as a later \<open>add_item\<close> is given that id: on
  the empty store, \<open>add_item(x, 1)\<close> creates item 0 below the missing id 1, the next
  \<open>add_item\<close> creates item 1 at the root, and the flattening lists item 0 at depth 1.
  And when the parent id is outside the 32-bit range, \<open>add_item\<close> raises at the
  assignment of the parent and leaves the element with the default parent, the sentinel:
  after \<open>add_item(x, 2147483648)\<close> on the empty store the flattening lists the element
  at the root.
\<close>

theorem dangling_item_counterexample:
  "get_item_by_id empty_store 1 = None
   \<and> run empty_store [Add ''x'' 1, Add ''y'' (-1)]
      = Some ([Returned_id 0, Returned_id 1],
              mk_store [mk_item 0 ''x'' 1 1, mk_item 1 ''y'' (-1) 1] 2)
   \<and> flatten_hierarchy 3 (mk_store [mk_item 0 ''x'' 1 1, mk_item 1 ''y'' (-1) 1] 2)
      = Some [(1, 0), (0, 1)]
   \<and> get_item_by_id empty_store 2147483648 = None
   \<and> add_item empty_store ''x'' 2147483648
      = (Inl ValueError, mk_store [mk_item 0 ''x'' (-1) 0] 0)
   \<and> flatten_hierarchy 2 (mk_store [mk_item 0 ''x'' (-1) 0] 0) = Some [(0, 0)]"
proof -
  have a: "get_item_by_id empty_store 1 = None" "get_item_by_id empty_store 2147483648 = None"
    by (simp_all add: get_item_by_id_def empty_store_def)
  have b: "run empty_store [Add ''x'' 1, Add ''y'' (-1)]
      = Some ([Returned_id 0, Returned_id 1],
              mk_store [mk_item 0 ''x'' 1 1, mk_item 1 ''y'' (-1) 1] 2)"
    by (simp add: eval_defs)
  have c: "flatten_hierarchy 3 (mk_store [mk_item 0 ''x'' 1 1, mk_item 1 ''y'' (-1) 1] 2)
      = Some [(1, 0), (0, 1)]"
    by (simp add: flatten_hierarchy_def sorted_children_def numeral_3_eq_3 mk_store_def mk_item_def)
  have d: "add_item empty_store ''x'' 2147483648
      = (Inl ValueError, mk_store [mk_item 0 ''x'' (-1) 0] 0)"
    by (simp add: eval_defs)
  have e: "flatten_hierarchy 2 (mk_store [mk_item 0 ''x'' (-1) 0] 0) = Some [(0, 0)]"
    by (simp add: flatten_hierarchy_def sorted_children_def numeral_2_eq_2 mk_store_def mk_item_def)
  from a b c d e show ?thesis by simp
qed

text \<open>
  Claim C9, amended. An item whose parent id is not the sentinel and is not the id of any
  other item does not appear in the output of \<open>flatten_hierarchy\<close>; the item just
  created by \<open>add_item\<close> with a parent id of the 32-bit range that is neither the
  sentinel nor the id of an existing item is such an item.
\<close>

theorem dangling_item_invisible:
  assumes "dangling s r
     \<or> (\<exists>s0 name parent_id. parent_id \<noteq> -1 \<and> in_range parent_id
           \<and> get_item_by_id s0 parent_id = None
           \<and> s = snd (add_item s0 name parent_id) \<and> r = length (items s0))"
    and "flatten_hierarchy depth s = Some flattened"
  shows "r \<notin> fst ` set flattened"
proof -
  from assms(1) have d: "dangling s r" by (auto simp: add_item_dangling)
  then have "-1 \<noteq> parent_id_of (items s ! r)" by (auto simp: dangling_def)
  moreover from assms(2) obtain ts where "spec_forest depth s (-1) = Some ts"
    and "flattened = concat (map (spec_preorder 0) ts)"
    by (auto simp: flatten_hierarchy_def collect_items_forest)
  ultimately show ?thesis using dangling_not_in_forest [OF d] by blast
qed

text \<open>
  Below the single item A, \<open>add_item(x, 5)\<close> creates item 1 with the missing parent 5;
  the flattening lists A alone.
\<close>

theorem dangling_item_invisible_witness:
  "get_item_by_id single_store 5 = None
   \<and> in_range 5
   \<and> add_item single_store ''x'' 5
      = (Inr 1, mk_store [mk_item 0 ''A'' (-1) 0, mk_item 1 ''x'' 5 1] 2)
   \<and> length (items single_store) = 1
   \<and> flatten_hierarchy 2 (mk_store [mk_item 0 ''A'' (-1) 0, mk_item 1 ''x'' 5 1] 2)
      = Some [(0, 0)]
   \<and> 1 \<notin> fst ` set [(0, 0) :: ref \<times> int]"
proof -
  have a: "get_item_by_id single_store 5 = None"
    by (simp add: get_item_by_id_def single_store_def mk_store_def mk_item_def)
  have i: "in_range 5" by (simp add: in_range_def)
  have b: "add_item single_store ''x'' 5
      = (Inr 1, mk_store [mk_item 0 ''A'' (-1) 0, mk_item 1 ''x'' 5 1] 2)"
    by (simp add: single_store_def eval_defs)
  have c: "flatten_hierarchy 2 (mk_store [mk_item 0 ''A'' (-1) 0, mk_item 1 ''x'' 5 1] 2)
      = Some [(0, 0)]"
    by (simp add: flatten_hierarchy_def sorted_children_def numeral_2_eq_2 mk_store_def mk_item_def)
  have l: "length (items single_store) = 1"
    by (simp add: single_store_def mk_store_def)
  have "dangling (mk_store [mk_item 0 ''A'' (-1) 0, mk_item 1 ''x'' 5 1] 2) 1
     \<or> (\<exists>s0 name parent_id. parent_id \<noteq> -1 \<and> in_range parent_id
           \<and> get_item_by_id s0 parent_id = None
           \<and> mk_store [mk_item 0 ''A'' (-1) 0, mk_item 1 ''x'' 5 1] 2
               = snd (add_item s0 name parent_id)
           \<and> 1 = length (items s0))"
    using a i b l by (intro disjI2 exI [of _ single_store] exI [of _ "''x''"] exI [of _ 5]) simp
  from dangling_item_invisible [OF this c] a i b c l show ?thesis by simp
qed

section \<open>The parent graph and termination\<close>

subsection \<open>The walk of \<open>move_item\<close> on an acyclic graph\<close>

lemma finite_parent_rel: "finite (parent_rel s)"
  by (simp add: parent_rel_def)

lemma parent_rel_nth: "c < length (items s) \<Longrightarrow> (id_of (items s ! c), parent_id_of (items s ! c)) \<in> parent_rel s"
  by (auto simp: parent_rel_def)

lemma parent_rel_maps:
  "parent_rel s = set (zip (map id_of (items s)) (map parent_id_of (items s)))"
  by (auto simp: parent_rel_def zip_map_map zip_same_conv_map)

lemma parent_rel_edge:
  assumes "distinct (map id_of (items s))"
  shows "parent_rel s \<subseteq> parent_edge s"
proof
  fix e assume "e \<in> parent_rel s"
  then obtain k where k: "k < length (items s)" "e = (id_of (items s ! k), parent_id_of (items s ! k))"
    by (auto simp: parent_rel_def in_set_conv_nth)
  then have "get_item_by_id s (id_of (items s ! k)) \<noteq> None"
    by (auto simp: get_item_by_id_None)
  then obtain c where c: "get_item_by_id s (id_of (items s ! k)) = Some c" by auto
  from get_item_by_id_Some [OF c] have "c < length (items s)" "id_of (items s ! c) = id_of (items s ! k)"
    by simp_all
  with k(1) have "map id_of (items s) ! c = map id_of (items s) ! k" by simp
  moreover from k(1) \<open>c < length (items s)\<close>
  have "c < length (map id_of (items s))" "k < length (map id_of (items s))" by simp_all
  ultimately have "c = k"
    using assms nth_eq_iff_index_eq [of "map id_of (items s)" c k] by blast
  with c k(2) show "e \<in> parent_edge s" by (auto simp: parent_edge_def)
qed

lemma ancestor_walk_terminates:
  assumes "acyclic (parent_rel s)"
  shows "ancestor_walk s item_id (get_item_by_id s a) \<noteq> None"
proof -
  from assms have "wf ((parent_rel s)\<inverse>)"
    by (simp add: finite_acyclic_wf_converse finite_parent_rel)
  then show ?thesis
  proof (induction a rule: wf_induct_rule)
    case (less a)
    show ?case
    proof (cases "get_item_by_id s a")
      case None
      then show ?thesis by (simp add: ancestor_walk.simps)
    next
      case (Some c)
      from get_item_by_id_Some [OF Some] parent_rel_nth [of c s]
      have "(a, parent_id_of (items s ! c)) \<in> parent_rel s" by auto
      then have "ancestor_walk s item_id (get_item_by_id s (parent_id_of (items s ! c))) \<noteq> None"
        by (intro less.IH) simp
      with Some show ?thesis by (subst ancestor_walk.simps) auto
    qed
  qed
qed

lemma move_item_terminates:
  assumes "acyclic (parent_rel s)"
  shows "\<exists>res s'. move_item s item_id new_parent_id = Some (res, s') \<and> (res = Inr False \<longrightarrow> s' = s)"
proof -
  from ancestor_walk_terminates [OF assms] obtain b where
    "ancestor_walk s item_id (get_item_by_id s new_parent_id) = Some b" by blast
  then have "move_item s item_id new_parent_id \<noteq> None"
    by (cases b) (auto simp: move_item_def Let_def split: option.splits)
  then obtain res s' where m: "move_item s item_id new_parent_id = Some (res, s')" by auto
  with move_item_cases [OF m] show ?thesis by auto
qed

lemma reorder_item_terminates:
  "\<exists>ok s'. reorder_item s item_id direction = Some (ok, s') \<and> (ok \<or> s' = s)"
proof (cases "get_item_by_id s item_id")
  case None
  then show ?thesis by (auto simp: reorder_item_def)
next
  case (Some item)
  show ?thesis
    by (rule reorder_item_cases [OF Some, of direction]) auto
qed

subsection \<open>The invariants are kept by every call\<close>

lemma ids_inv_same:
  assumes "map id_of (items s') = map id_of (items s)" and "next_id s' = next_id s"
  shows "ids_inv s' = ids_inv s"
proof -
  from assms(1) have "id_of ` set (items s') = id_of ` set (items s)" by (metis set_map)
  then have "(\<forall>i\<in>set (items s'). 0 \<le> id_of i \<and> id_of i < next_id s)
      = (\<forall>i\<in>set (items s). 0 \<le> id_of i \<and> id_of i < next_id s)"
    by (metis (no_types, lifting) image_iff)
  with assms show ?thesis by (simp add: ids_inv_def)
qed

lemma distinct_remove_nth:
  assumes "distinct ys"
  shows "distinct (take k ys @ drop (Suc k) ys)"
proof -
  from assms have "distinct (take k ys @ drop k ys)" by simp
  then have "set (take k ys) \<inter> set (drop k ys) = {}" by (simp only: distinct_append)
  moreover have "set (drop (Suc k) ys) \<subseteq> set (drop k ys)"
    by (rule set_drop_subset_set_drop) simp
  ultimately show ?thesis using assms by auto
qed

lemma ids_inv_remove:
  assumes "ids_inv s"
  shows "ids_inv (items_remove s index)"
proof (cases "index < length (items s)")
  case False
  with assms show ?thesis by (simp add: items_remove_def)
next
  case True
  let ?xs = "take index (items s) @ drop (Suc index) (items s)"
  have sub: "set ?xs \<subseteq> set (items s)"
    by (auto dest: in_set_takeD in_set_dropD)
  from assms have "distinct (map id_of (items s))" by (simp add: ids_inv_def)
  from distinct_remove_nth [OF this, of index] have "distinct (map id_of ?xs)"
    by (simp add: take_map drop_map)
  with assms sub True show ?thesis
    by (auto simp: ids_inv_def items_remove_def)
qed

lemma ids_inv_add:
  assumes "ids_inv s" and "fst (add_item s name parent_id) = Inr new_id"
  shows "ids_inv (snd (add_item s name parent_id))"
proof -
  from assms(2) have "snd (add_item s name parent_id) =
      s\<lparr>items := items s @ [\<lparr>id_of = next_id s, name_of = c_string name,
          parent_id_of = parent_id,
          order_of = Max (insert 0 (order_of ` {i \<in> set (items s). parent_id_of i = parent_id})) + 1\<rparr>],
        next_id := next_id s + 1\<rparr>"
    by (simp add: add_item_eq Let_def split: if_splits)
  moreover from assms(1) have "next_id s \<notin> id_of ` set (items s)"
    by (auto simp: ids_inv_def)
  ultimately show ?thesis using assms(1) by (auto simp: ids_inv_def)
qed




lemma ancestor_walk_edge:
  assumes "distinct (map id_of (items s))" and "get_item_by_id s item_id \<noteq> None"
    and "ancestor_walk s item_id (get_item_by_id s new_parent_id) = Some False"
  shows "(new_parent_id, item_id) \<notin> (parent_rel s)\<^sup>*"
proof
  assume "(new_parent_id, item_id) \<in> (parent_rel s)\<^sup>*"
  with rtrancl_mono [OF parent_rel_edge [OF assms(1)]]
  have "(new_parent_id, item_id) \<in> (parent_edge s)\<^sup>*" by blast
  from ancestor_walk_reaches [OF this assms(2)] assms(3) show False by simp
qed

lemma store_inv_add:
  assumes "store_inv s" and "parent_id < next_id s"
    and "fst (add_item s name parent_id) = Inr new_id"
  shows "store_inv (snd (add_item s name parent_id))"
proof -
  from assms(1) have i: "ids_inv s"
    and b: "\<forall>i\<in>set (items s). parent_id_of i < next_id s"
    and a: "acyclic (parent_rel s)"
    by (simp_all add: store_inv_def)
  from assms(3) have s': "snd (add_item s name parent_id) =
      s\<lparr>items := items s @ [\<lparr>id_of = next_id s, name_of = c_string name,
          parent_id_of = parent_id,
          order_of = Max (insert 0 (order_of ` {i \<in> set (items s). parent_id_of i = parent_id})) + 1\<rparr>],
        next_id := next_id s + 1\<rparr>"
    by (simp add: add_item_eq Let_def split: if_splits)
  have "(parent_id, next_id s) \<notin> (parent_rel s)\<^sup>*"
  proof
    assume "(parent_id, next_id s) \<in> (parent_rel s)\<^sup>*"
    then show False
    proof (cases rule: rtranclE)
      case base
      with assms(2) show False by simp
    next
      case (step y)
      then have "(y, next_id s) \<in> parent_rel s" by simp
      with b show False by (auto simp: parent_rel_def)
    qed
  qed
  with a have "acyclic (insert (next_id s, parent_id) (parent_rel s))" by simp
  moreover have "parent_rel (snd (add_item s name parent_id)) = insert (next_id s, parent_id) (parent_rel s)"
    by (simp add: s' parent_rel_def)
  ultimately have "acyclic (parent_rel (snd (add_item s name parent_id)))" by simp
  moreover from b assms(2) have "\<forall>i\<in>set (items (snd (add_item s name parent_id))).
      parent_id_of i < next_id (snd (add_item s name parent_id))"
    by (auto simp: s')
  moreover note ids_inv_add [OF i assms(3)]
  ultimately show ?thesis by (simp add: store_inv_def)
qed

lemma store_inv_move:
  assumes "store_inv s" and "move_item s item_id new_parent_id = Some (res, s')"
  shows "store_inv s'"
proof -
  from assms(1) have i: "ids_inv s"
    and b: "\<forall>i\<in>set (items s). parent_id_of i < next_id s"
    and a: "acyclic (parent_rel s)"
    by (simp_all add: store_inv_def)
  from i have n: "0 \<le> next_id s" and d: "distinct (map id_of (items s))"
    and lt: "\<forall>i\<in>set (items s). id_of i < next_id s"
    by (simp_all add: ids_inv_def)
  from move_item_ids [OF assms(2)] have "ids_inv s' = ids_inv s"
    by (intro ids_inv_same) simp_all
  with i have i': "ids_inv s'" by simp
  from move_item_ids [OF assms(2)] have n': "next_id s' = next_id s" by simp
  from move_item_cases [OF assms(2)] show ?thesis
  proof
    assume "res = Inr False \<and> s' = s"
    with assms(1) show ?thesis by simp
  next
    assume "res \<noteq> Inr False \<and> (\<exists>item x. get_item_by_id s item_id = Some item
          \<and> (new_parent_id = -1 \<or> get_item_by_id s new_parent_id \<noteq> None)
          \<and> ancestor_walk s item_id (get_item_by_id s new_parent_id) = Some False
          \<and> s' = s\<lparr>items := (items s)[item := x]\<rparr>
          \<and> id_of x = id_of (items s ! item)
          \<and> (parent_id_of x = new_parent_id \<or> x = items s ! item))"
    then obtain item x where
      item: "get_item_by_id s item_id = Some item"
      and np: "new_parent_id = -1 \<or> get_item_by_id s new_parent_id \<noteq> None"
      and w: "ancestor_walk s item_id (get_item_by_id s new_parent_id) = Some False"
      and s': "s' = s\<lparr>items := (items s)[item := x]\<rparr>"
      and ix: "id_of x = id_of (items s ! item)"
      and px: "parent_id_of x = new_parent_id \<or> x = items s ! item"
      by blast
    show ?thesis
    proof (cases "x = items s ! item")
      case True
      with s' have "s' = s" by simp
      with assms(1) show ?thesis by simp
    next
      case False
      with px have px': "parent_id_of x = new_parent_id" by simp
      from get_item_by_id_Some [OF item] have il: "item < length (items s)"
        and ii: "id_of (items s ! item) = item_id" by simp_all
      have p: "new_parent_id < next_id s"
      proof (cases "new_parent_id = -1")
        case True
        with n show ?thesis by simp
      next
        case False
        with np obtain c where "get_item_by_id s new_parent_id = Some c" by auto
        from get_item_by_id_Some [OF this] lt show ?thesis by (metis nth_mem)
      qed
      with b px' have b': "\<forall>i\<in>set (items s'). parent_id_of i < next_id s'"
        unfolding s' by (auto dest!: set_update_subset_insert [THEN subsetD])
      from item have "get_item_by_id s item_id \<noteq> None" by simp
      from ancestor_walk_edge [OF d this w] a
      have "acyclic (insert (item_id, new_parent_id) (parent_rel s))" by simp
      moreover have "parent_rel s' \<subseteq> insert (item_id, new_parent_id) (parent_rel s)"
        unfolding s' parent_rel_def using ii ix px'
        by (auto dest!: set_update_subset_insert [THEN subsetD])
      ultimately have "acyclic (parent_rel s')" by (rule acyclic_subset)
      with i' b' show ?thesis by (simp add: store_inv_def)
    qed
  qed
qed

lemma store_inv_reorder:
  assumes "store_inv s" and "reorder_item s item_id direction = Some (ok, s')"
  shows "store_inv s'"
proof -
  from reorder_item_frame [OF assms(2)] have
    i: "map id_of (items s') = map id_of (items s)"
    and p: "map parent_id_of (items s') = map parent_id_of (items s)"
    and n: "next_id s' = next_id s" by simp_all
  from i p have r: "parent_rel s' = parent_rel s" by (simp add: parent_rel_maps)
  from i n have ii: "ids_inv s' = ids_inv s" by (rule ids_inv_same)
  from p have "parent_id_of ` set (items s') = parent_id_of ` set (items s)" by (metis set_map)
  then have "(\<forall>i\<in>set (items s'). parent_id_of i < next_id s)
      = (\<forall>i\<in>set (items s). parent_id_of i < next_id s)"
    by (metis (no_types, lifting) image_iff)
  with assms(1) ii r n show ?thesis by (simp add: store_inv_def)
qed

lemma store_inv_remove:
  assumes "store_inv s"
  shows "store_inv (items_remove s index)"
proof (cases "index < length (items s)")
  case False
  with assms show ?thesis by (simp add: items_remove_def)
next
  case True
  let ?xs = "take index (items s) @ drop (Suc index) (items s)"
  have sub: "set ?xs \<subseteq> set (items s)"
    by (auto dest: in_set_takeD in_set_dropD)
  from sub have "parent_rel (items_remove s index) \<subseteq> parent_rel s"
    using True by (auto simp: parent_rel_def items_remove_def)
  with assms have "acyclic (parent_rel (items_remove s index))"
    by (auto simp: store_inv_def intro: acyclic_subset)
  moreover from assms have "ids_inv (items_remove s index)"
    by (simp add: store_inv_def ids_inv_remove)
  moreover from assms sub True have "\<forall>i\<in>set (items (items_remove s index)).
      parent_id_of i < next_id (items_remove s index)"
    by (auto simp: store_inv_def items_remove_def)
  ultimately show ?thesis by (simp add: store_inv_def)
qed

lemma store_inv_empty: "store_inv empty_store"
  by (simp add: store_inv_def ids_inv_def empty_store_def parent_rel_def acyclic_def)

lemma apply_op_inv:
  assumes "store_inv s" and "add_returns s c" and "add_past s c"
  shows "\<exists>out s'. apply_op s c = Some (out, s') \<and> store_inv s'"
proof (cases c)
  case (Add name parent_id)
  from assms(3) Add have p: "parent_id < next_id s" by (simp add: add_past_def)
  show ?thesis
  proof (cases "fst (add_item s name parent_id)")
    case (Inl e)
    with assms(2) Add show ?thesis by (simp add: add_returns_def)
  next
    case (Inr new_id)
    from store_inv_add [OF assms(1) p Inr] Inr Add show ?thesis
      by (cases "add_item s name parent_id") auto
  qed
next
  case (Move item_id new_parent_id)
  from assms(1) have "acyclic (parent_rel s)" by (simp add: store_inv_def)
  from move_item_terminates [OF this, of item_id new_parent_id] obtain res s' where
    m: "move_item s item_id new_parent_id = Some (res, s')" by blast
  with store_inv_move [OF assms(1) m] Move show ?thesis by (cases res) simp_all
next
  case (Reorder item_id direction)
  from reorder_item_terminates [of s item_id direction] obtain ok s' where
    m: "reorder_item s item_id direction = Some (ok, s')" by blast
  with store_inv_reorder [OF assms(1) m] Reorder show ?thesis by simp
next
  case (Remove index)
  with store_inv_remove [OF assms(1)] show ?thesis by simp
qed

lemma run_inv:
  "store_inv s \<Longrightarrow> every_call add_returns s cs \<Longrightarrow> every_call add_past s cs \<Longrightarrow>
   \<exists>outs s'. run s cs = Some (outs, s') \<and> store_inv s'"
proof (induction cs arbitrary: s)
  case Nil
  then show ?case by simp
next
  case (Cons c cs)
  from Cons.prems(2,3) have k: "add_returns s c" "add_past s c" by simp_all
  from apply_op_inv [OF Cons.prems(1) k] obtain out s1 where
    a: "apply_op s c = Some (out, s1)" and i: "store_inv s1" by blast
  with Cons.prems(2,3) have "every_call add_returns s1 cs" "every_call add_past s1 cs" by simp_all
  from Cons.IH [OF i this] a show ?case by auto
qed

subsection \<open>The recursion of \<open>collect_items\<close> with distinct ids\<close>








subsection \<open>The walk and the recursion on a cycle\<close>




section \<open>Reachable stores\<close>

lemma example_run: "run empty_store example_calls = Some (example_outcomes, example_result)"
  by (simp add: example_calls_def example_outcomes_def example_result_def eval_defs)

lemma example_returns: "every_call add_returns empty_store example_calls"
  by (simp add: example_calls_def eval_defs)

lemma example_past: "every_call add_past empty_store example_calls"
  by (simp add: example_calls_def eval_defs)

subsection \<open>Acyclicity\<close>

text \<open>
  Claim C2, as the specification states it, fails. \<open>add_item\<close> takes any parent id: on
  the empty store \<open>add_item(a, 0)\<close> creates item 0 with parent 0, its own ancestor. And
  a call of \<open>add_item\<close> that raises leaves an element whose id the next call uses again,
  which the walk of \<open>move_item\<close> does not see: after \<open>add_item(a)\<close>,
  \<open>add_item(f, -2147483649)\<close> (raises), \<open>add_item(g, 0)\<close> and \<open>move_item(0, 1)\<close>, every
  parent passed being below \<open>next_id\<close>, item a is below the id 1 and item g, of id 1,
  is below a.
\<close>

theorem parent_graph_counterexample:
  "run empty_store [Add ''a'' 0] = Some ([Returned_id 0], self_parent_store)
   \<and> (0, 0) \<in> (parent_rel self_parent_store)\<^sup>+
   \<and> \<not> acyclic (parent_rel self_parent_store)
   \<and> run empty_store [Add ''a'' (-1), Add ''f'' (-2147483649), Add ''g'' 0, Move 0 1]
      = Some ([Returned_id 0, Raised ValueError, Returned_id 1, Returned_bool True], twin_store)
   \<and> every_call add_past empty_store
        [Add ''a'' (-1), Add ''f'' (-2147483649), Add ''g'' 0, Move 0 1]
   \<and> (0, 0) \<in> (parent_rel twin_store)\<^sup>+
   \<and> \<not> acyclic (parent_rel twin_store)"
proof -
  have r: "run empty_store [Add ''a'' 0] = Some ([Returned_id 0], self_parent_store)"
    by (simp add: self_parent_store_def eval_defs)
  have "(0, 0) \<in> parent_rel self_parent_store"
    by (simp add: parent_rel_def self_parent_store_def mk_store_def mk_item_def)
  then have c: "(0, 0) \<in> (parent_rel self_parent_store)\<^sup>+" by (rule r_into_trancl)
  then have n: "\<not> acyclic (parent_rel self_parent_store)" by (auto simp: acyclic_def)
  have r2: "run empty_store [Add ''a'' (-1), Add ''f'' (-2147483649), Add ''g'' 0, Move 0 1]
      = Some ([Returned_id 0, Raised ValueError, Returned_id 1, Returned_bool True], twin_store)"
    by (simp add: twin_store_def eval_defs)
  have p2: "every_call add_past empty_store
        [Add ''a'' (-1), Add ''f'' (-2147483649), Add ''g'' 0, Move 0 1]"
    by (simp add: eval_defs)
  have "(0, 1) \<in> parent_rel twin_store" "(1, 0) \<in> parent_rel twin_store"
    by (simp_all add: parent_rel_def twin_store_def mk_store_def mk_item_def)
  then have c2: "(0, 0) \<in> (parent_rel twin_store)\<^sup>+" by (rule trancl_into_trancl [OF r_into_trancl])
  then have n2: "\<not> acyclic (parent_rel twin_store)" by (auto simp: acyclic_def)
  from r c n r2 p2 c2 n2 show ?thesis by simp
qed

text \<open>
  Claim C2, amended. In every store reached from the empty store by calls of
  \<open>add_item\<close>, \<open>move_item\<close> and \<open>reorder_item\<close> (and removals), where every call of
  \<open>add_item\<close> returns and is given a parent id below \<open>next_id\<close> (the sentinel, the id
  of an item created before, or any other smaller number) and the other calls have any
  arguments, the parent graph is acyclic.
\<close>

theorem parent_graph_acyclic:
  assumes "every_call add_returns empty_store cs" and "every_call add_past empty_store cs"
    and "run empty_store cs = Some (outs, s)"
  shows "acyclic (parent_rel s)"
proof -
  from run_inv [OF store_inv_empty assms(1,2)] assms(3) have "store_inv s" by auto
  then show ?thesis by (simp add: store_inv_def)
qed

theorem parent_graph_acyclic_witness:
  "every_call add_returns empty_store example_calls
   \<and> every_call add_past empty_store example_calls
   \<and> run empty_store example_calls = Some (example_outcomes, example_result)
   \<and> acyclic (parent_rel example_result)"
  using parent_graph_acyclic [OF example_returns example_past example_run]
    example_returns example_past example_run by simp

subsection \<open>Termination\<close>




end
